theory Spec2Isabelle
  imports Main "HOL-Library.Word"
begin

unbundle bit_operations_syntax

section \<open>Emerald Hill compression engine driver (eh_main.c)\<close>

text \<open>
  A shallow embedding of the descriptor ring, the completion thread, the polled
  decompression path and suspend of \<^verbatim>\<open>drivers/soc/google/eh/eh_main.c\<close>.

  The device structure is a record that every operation takes and returns.  What an
  operation does to the outside world (register writes, callbacks, lock operations,
  log output) is appended, in program order, to the field \<open>trace\<close>.  What an
  operation reads from the outside world (a register, the jiffies counter) is an
  argument of the modelled function, one argument per read.

  The header \<^verbatim>\<open>eh_internal.h\<close> is not part of the sources at hand.  The status
  enumerations are datatypes with the enumerators the C file names; the macros and
  kernel constants it uses (\<^verbatim>\<open>PAGE_SIZE\<close>, \<^verbatim>\<open>EH_CDESC_CTRL_COMPLETE_IDX_MASK\<close>,
  \<^verbatim>\<open>EH_CDESC_CTRL_COMPRESS_ENABLE_SHIFT\<close>, the poll delay) are arguments of the
  functions that use them.  Index fields are \<open>unsigned int\<close> (\<open>32 word\<close>), pointers and
  registers are 64-bit words, \<open>NULL\<close> is the word 0.  Of the configuration variants
  the file has, the model takes the ones without \<^verbatim>\<open>CONFIG_GOOGLE_EH_DCMD_STATUS_IN_MEMORY\<close>
  and \<^verbatim>\<open>CONFIG_GOOGLE_EH_CFIFO_DST_BUFFER_3KB\<close>; latency bookkeeping is the event
  \<open>Update_latency\<close>.
\<close>

subsection \<open>Data model\<close>

text \<open>
  The constants of the absent headers, as one record that the operations take:
  \<open>PAGE_SIZE\<close>, the masks and shifts of \<^verbatim>\<open>eh_regs.h\<close>, the register encoding of
  \<^verbatim>\<open>EH_DCMD_PENDING\<close>, and \<open>POLL_DELAY\<close> for the value of
  \<^verbatim>\<open>msecs_to_jiffies(EH_POLL_DELAY_MS)\<close>.
\<close>

record eh_hdr =
  PAGE_SIZE :: "64 word"
  EH_MAX_FIFO_SIZE :: "16 word"
  EH_CDESC_CTRL_COMPLETE_IDX_MASK :: "64 word"
  EH_CDESC_CTRL_COMPRESS_ENABLE_SHIFT :: nat
  EH_CDESC_CTRL_FIFO_RESET :: nat
  EH_DCMD_CSIZE_SIZE_SHIFT :: nat
  EH_DCMD_BUF_SIZE_SHIFT :: nat
  EH_DCMD_DEST_STATUS_SHIFT :: nat
  EH_DCMD_PENDING_code :: "64 word"
  POLL_DELAY :: "64 word"

datatype eh_cdesc_status =
    EH_CDESC_IDLE
  | EH_CDESC_ERROR_CONTINUE
  | EH_CDESC_ERROR_HALTED
  | EH_CDESC_PENDING
  | EH_CDESC_COMPRESSED
  | EH_CDESC_ZERO
  | EH_CDESC_ABORT
  | EH_CDESC_COPIED

datatype eh_dcmd_status =
    EH_DCMD_PENDING
  | EH_DCMD_DECOMPRESSED
  | EH_DCMD_OTHER nat

datatype eh_event_type = EH_COMPRESS | EH_DECOMPRESS_POLL

datatype eh_lock = Fifo_prod_lock | Decompr_lock nat

datatype eh_reg =
    EH_REG_GCTRL
  | EH_REG_CDESC_WRIDX
  | EH_REG_CDESC_CTRL
  | EH_REG_CDESC_LOC
  | EH_REG_INTRP_MASK_ERROR
  | EH_REG_INTRP_MASK_CMP
  | EH_REG_INTRP_MASK_DCMP
  | EH_REG_DCMD_CSIZE nat
  | EH_REG_DCMD_BUF0 nat
  | EH_REG_DCMD_BUF1 nat
  | EH_REG_DCMD_BUF2 nat
  | EH_REG_DCMD_BUF3 nat
  | EH_REG_DCMD_DEST nat

text \<open>The fields of \<^verbatim>\<open>struct eh_compress_desc\<close> that the driver reads or writes.\<close>

record eh_compress_desc =
  desc_src_addr :: "64 word"
  desc_status :: eh_cdesc_status
  desc_compr_len :: "32 word"
  desc_buf_sel :: "32 word"

record eh_completion =
  priv :: "64 word"

text \<open>Everything the driver does to its environment, in program order.\<close>

datatype eh_event =
    Spin_lock eh_lock
  | Spin_unlock eh_lock
  | Write_register eh_reg "64 word"
  | Comp_callback eh_cdesc_status "64 word" "32 word" "64 word"
  | Update_latency eh_event_type
  | Memcpy "64 word" "64 word" "32 word"
  | Congestion_wait
  | Wake_up_comp_wq
  | Clear_eh_congested
  | Clk_disable_unprepare
  | Clk_prepare_enable
  | Dump_regs
  | Pr_err
  | Pr_warn
  | Pr_info
  | Warn

record eh_device =
  fifo_size :: "32 word"
  fifo_index_mask :: "32 word"
  fifo_color_mask :: "32 word"
  write_index :: "32 word"
  complete_index :: "32 word"
  fifo :: "eh_compress_desc list"
  completions :: "eh_completion list"
  compr_buffers :: "64 word list"
  nr_request :: int
  suspended :: bool
  decompr_cmd_count :: nat
  decompr_busy :: "bool list"
  decompr_buffers :: "64 word list"
  comp_thread_running :: bool
  trace :: "eh_event list"

definition NULL :: "64 word" where
  "NULL = 0"

definition emit :: "eh_event list \<Rightarrow> eh_device \<Rightarrow> eh_device" where
  "emit evs s = s\<lparr>trace := trace s @ evs\<rparr>"

text \<open>The completion callbacks among the events of a trace.\<close>

fun is_callback :: "eh_event \<Rightarrow> bool" where
  "is_callback (Comp_callback st d n p) = True"
| "is_callback _ = False"

definition callbacks :: "eh_event list \<Rightarrow> eh_event list" where
  "callbacks evs = filter is_callback evs"

fun is_write_register :: "eh_event \<Rightarrow> bool" where
  "is_write_register (Write_register r v) = True"
| "is_write_register _ = False"

subsection \<open>The completion thread\<close>

text \<open>
  \<^verbatim>\<open>eh_process_completed_descriptor\<close>: the \<open>switch\<close> on the descriptor status chooses
  the data pointer, the return value and the log output; the callback, the reset of
  the descriptor to \<open>IDLE\<close>, the decrement of \<open>nr_request\<close> and the wake-up of
  congested producers follow for every status.
\<close>

fun compr_switch :: "eh_cdesc_status \<Rightarrow> 64 word \<Rightarrow> 64 word \<times> int \<times> eh_event list" where
  "compr_switch EH_CDESC_COPIED buf = (buf, 0, [])"
| "compr_switch EH_CDESC_COMPRESSED buf = (buf, 0, [])"
| "compr_switch EH_CDESC_ZERO buf = (NULL, 0, [])"
| "compr_switch EH_CDESC_ABORT buf = (NULL, 0, [])"
| "compr_switch EH_CDESC_ERROR_CONTINUE buf = (NULL, 0, [Pr_err])"
| "compr_switch EH_CDESC_ERROR_HALTED buf = (NULL, 1, [Pr_err])"
| "compr_switch EH_CDESC_IDLE buf = (NULL, 0, [Dump_regs, Pr_err, Warn])"
| "compr_switch EH_CDESC_PENDING buf = (NULL, 0, [Dump_regs, Pr_err, Warn])"

definition eh_process_completed_descriptor ::
  "eh_hdr \<Rightarrow> eh_device \<Rightarrow> nat \<Rightarrow> eh_completion \<Rightarrow> eh_device \<times> int" where
  "eh_process_completed_descriptor h s fifo_index cmpl =
     (let desc = fifo s ! fifo_index;
          compr_status = desc_status desc;
          compr_size = desc_compr_len desc;
          compr_bufsel = desc_buf_sel desc;
          offset = (if compr_bufsel = 2 then PAGE_SIZE h div 2 else 0);
          (compr_data, ret, logged) =
             compr_switch compr_status (compr_buffers s ! fifo_index + offset);
          s1 = emit ([Update_latency EH_COMPRESS] @ logged @
                     [Comp_callback compr_status compr_data compr_size (priv cmpl)]) s;
          s2 = s1\<lparr>fifo := (fifo s1)[fifo_index := desc\<lparr>desc_status := EH_CDESC_IDLE\<rparr>],
                   nr_request := nr_request s1 - 1\<rparr>
      in (emit [Clear_eh_congested] s2, ret))"

text \<open>
  \<^verbatim>\<open>eh_process_completions\<close>: one pass of the \<open>for\<close> loop, then the loop.  The loop
  runs until \<open>i\<close> meets \<open>end\<close>, a value the device supplies, so it is a partial
  function: \<open>None\<close> is a loop that does not end.  The callee takes the slot index
  as \<open>unsigned short\<close>.
\<close>

definition eh_process_slot :: "eh_hdr \<Rightarrow> eh_device \<Rightarrow> 32 word \<Rightarrow> eh_device \<times> int" where
  "eh_process_slot h s i =
     (let index = i AND fifo_index_mask s;
          cmpl = completions s ! unat index;
          (s1, ret) = eh_process_completed_descriptor h s (unat (ucast index :: 16 word)) cmpl;
          s2 = s1\<lparr>completions := (completions s1)[unat index := cmpl\<lparr>priv := NULL\<rparr>]\<rparr>;
          s3 = s2\<lparr>complete_index := (complete_index s2 + 1) AND fifo_color_mask s2\<rparr>
      in (s3, ret))"

partial_function (option) eh_process_completions ::
  "eh_hdr \<Rightarrow> eh_device \<Rightarrow> 32 word \<Rightarrow> 32 word \<Rightarrow> (eh_device \<times> int) option" where
  "eh_process_completions h s i end_index =
     (if i = end_index then Some (s, 0)
      else if snd (eh_process_slot h s i) \<noteq> 0 then Some (eh_process_slot h s i)
      else eh_process_completions h (fst (eh_process_slot h s i))
             ((i + 1) AND fifo_color_mask (fst (eh_process_slot h s i))) end_index)"

declare eh_process_completions.simps [code]

text \<open>\<^verbatim>\<open>eh_update_complete_index\<close>; \<open>raw\<close> is what \<^verbatim>\<open>EH_REG_CDESC_CTRL\<close> reads.\<close>

definition eh_update_complete_index ::
  "eh_hdr \<Rightarrow> eh_device \<Rightarrow> 64 word \<Rightarrow> (eh_device \<times> int) option" where
  "eh_update_complete_index h s raw =
     (let new_complete_index = (ucast (raw AND EH_CDESC_CTRL_COMPLETE_IDX_MASK h) :: 32 word)
      in if new_complete_index \<noteq> complete_index s
         then eh_process_completions h s (complete_index s) new_complete_index
         else Some (s, 0))"

text \<open>
  \<^verbatim>\<open>eh_abort_incomplete_descriptors\<close>: both bounds are \<open>unsigned short\<close>, the loop
  variable walks the masked indices.
\<close>

definition eh_abort_slot :: "eh_device \<Rightarrow> 32 word \<Rightarrow> eh_device" where
  "eh_abort_slot s i =
     (let cmpl = completions s ! unat i;
          s1 = emit [Comp_callback EH_CDESC_ERROR_HALTED NULL 0 (priv cmpl)] s
      in s1\<lparr>completions := (completions s1)[unat i := cmpl\<lparr>priv := NULL\<rparr>]\<rparr>)"

partial_function (option) eh_abort_loop ::
  "eh_device \<Rightarrow> 32 word \<Rightarrow> 32 word \<Rightarrow> eh_device option" where
  "eh_abort_loop s i masked_write_index =
     (if i = masked_write_index then Some s
      else eh_abort_loop (eh_abort_slot s i) ((i + 1) AND fifo_index_mask s) masked_write_index)"

declare eh_abort_loop.simps [code]

definition eh_abort_incomplete_descriptors ::
  "eh_hdr \<Rightarrow> eh_device \<Rightarrow> 64 word \<Rightarrow> eh_device option" where
  "eh_abort_incomplete_descriptors h s raw =
     (let masked_write_index = (ucast (write_index s AND fifo_index_mask s) :: 16 word);
          new_complete_index =
            (ucast ((raw AND EH_CDESC_CTRL_COMPLETE_IDX_MASK h) AND ucast (fifo_index_mask s))
               :: 16 word)
      in eh_abort_loop s (ucast new_complete_index) (ucast masked_write_index))"

text \<open>
  One pass of the \<open>while\<close> loop of \<^verbatim>\<open>eh_comp_thread\<close>.  \<open>raw\<close> is the read of
  \<^verbatim>\<open>EH_REG_CDESC_CTRL\<close> in \<^verbatim>\<open>eh_update_complete_index\<close>, \<open>error\<close> the read of
  \<^verbatim>\<open>EH_REG_ERR_COND\<close>, \<open>raw2\<close> the read of \<^verbatim>\<open>EH_REG_CDESC_CTRL\<close> in
  \<^verbatim>\<open>eh_abort_incomplete_descriptors\<close>.  The pass waits (\<open>None\<close>) while
  \<open>nr_request\<close> is not positive.  The \<open>break\<close> ends the thread function:
  \<open>comp_thread_running\<close> becomes \<open>False\<close>, and nothing in the file starts the thread
  again but \<^verbatim>\<open>eh_sw_init\<close>.
\<close>

definition eh_comp_thread_pass ::
  "eh_hdr \<Rightarrow> eh_device \<Rightarrow> 64 word \<Rightarrow> 64 word \<Rightarrow> 64 word \<Rightarrow> eh_device option" where
  "eh_comp_thread_pass h s raw error raw2 =
     (if nr_request s \<le> 0 then None
      else case eh_update_complete_index h s raw of
             None \<Rightarrow> None
           | Some (s1, ret) \<Rightarrow>
               if ret \<noteq> 0 then
                 (if error \<noteq> 0 then
                    (case eh_abort_incomplete_descriptors h (emit [Pr_err, Dump_regs] s1) raw2 of
                       None \<Rightarrow> None
                     | Some s2 \<Rightarrow> Some (s2\<lparr>comp_thread_running := False\<rparr>))
                  else Some (emit [Warn] s1))
               else Some s1)"

subsection \<open>Submission\<close>

definition EBUSY :: int where "EBUSY = 16"
definition ETIME :: int where "ETIME = 62"
definition EIO :: int where "EIO = 5"

text \<open>\<^verbatim>\<open>eh_setup_descriptor\<close>; the page is given by its physical address.\<close>

definition eh_setup_descriptor :: "eh_device \<Rightarrow> 64 word \<Rightarrow> 32 word \<Rightarrow> eh_device" where
  "eh_setup_descriptor s src_paddr masked_w_index =
     s\<lparr>fifo := (fifo s)[unat masked_w_index :=
          (fifo s ! unat masked_w_index)
            \<lparr>desc_src_addr := src_paddr, desc_status := EH_CDESC_PENDING\<rparr>]\<rparr>"

text \<open>
  One pass of \<^verbatim>\<open>eh_compress_page\<close> from the label \<open>try_again\<close>: \<open>Inl\<close> is a return
  (the device and the return value), \<open>Inr\<close> is the state at \<open>goto try_again\<close>.
\<close>

definition eh_compress_page_try ::
  "eh_device \<Rightarrow> 64 word \<Rightarrow> 64 word \<Rightarrow> (eh_device \<times> int) + eh_device" where
  "eh_compress_page_try s page priv_arg =
     (let s1 = emit [Spin_lock Fifo_prod_lock] s in
      if suspended s1 then Inl (emit [Warn, Spin_unlock Fifo_prod_lock] s1, - EBUSY)
      else
        let complete_idx = complete_index s1;
            new_write_index = (write_index s1 + 1) AND fifo_color_mask s1;
            new_pending_count = (new_write_index - complete_idx) AND fifo_color_mask s1
        in if new_pending_count > fifo_size s1
           then Inr (emit [Spin_unlock Fifo_prod_lock, Congestion_wait] s1)
           else
             let masked_w_index = write_index s1 AND fifo_index_mask s1;
                 s2 = eh_setup_descriptor s1 page masked_w_index;
                 s3 = s2\<lparr>completions := (completions s2)[unat masked_w_index :=
                            (completions s2 ! unat masked_w_index)\<lparr>priv := priv_arg\<rparr>]\<rparr>;
                 s4 = emit [Wake_up_comp_wq] (s3\<lparr>nr_request := nr_request s3 + 1\<rparr>);
                 s5 = s4\<lparr>write_index := new_write_index\<rparr>
             in Inl (emit [Write_register EH_REG_CDESC_WRIDX (ucast new_write_index),
                           Spin_unlock Fifo_prod_lock] s5, 0))"

text \<open>
  \<^verbatim>\<open>eh_compress_page\<close>.  While the caller sleeps in \<^verbatim>\<open>eh_congestion_wait\<close> the rest
  of the system runs: the list holds, for each sleep, what the others did to the
  device.  \<open>None\<close> is a caller still waiting when the list ends.
\<close>

fun eh_compress_page ::
  "eh_device \<Rightarrow> (eh_device \<Rightarrow> eh_device) list \<Rightarrow> 64 word \<Rightarrow> 64 word \<Rightarrow> (eh_device \<times> int) option" where
  "eh_compress_page s [] page priv_arg =
     (case eh_compress_page_try s page priv_arg of Inl r \<Rightarrow> Some r | Inr s' \<Rightarrow> None)"
| "eh_compress_page s (others # rest) page priv_arg =
     (case eh_compress_page_try s page priv_arg of
        Inl r \<Rightarrow> Some r
      | Inr s' \<Rightarrow> eh_compress_page (others s') rest page priv_arg)"

subsection \<open>Decompression\<close>

text \<open>
  The kernel's \<^verbatim>\<open>__ffs\<close> and \<^verbatim>\<open>__fls\<close>: the index of the least and of the most
  significant set bit.  Both are undefined for 0 in the kernel; here they give 0.
\<close>

fun ffs_nat :: "nat \<Rightarrow> nat" where
  "ffs_nat n = (if n = 0 \<or> odd n then 0 else Suc (ffs_nat (n div 2)))"

fun fls_nat :: "nat \<Rightarrow> nat" where
  "fls_nat n = (if n \<le> 1 then 0 else Suc (fls_nat (n div 2)))"

declare ffs_nat.simps [simp del] fls_nat.simps [simp del]

definition ffs :: "'a::len word \<Rightarrow> nat" where
  "ffs w = ffs_nat (unat w)"

definition fls :: "'a::len word \<Rightarrow> nat" where
  "fls w = fls_nat (unat w)"

text \<open>
  The branch of \<^verbatim>\<open>eh_setup_dcmd\<close> on the source buffer: whether the data is copied
  to the slot's own buffer, the virtual address the device is given, and the alignment
  that is programmed.
\<close>

definition eh_dcmd_source ::
  "eh_hdr \<Rightarrow> eh_device \<Rightarrow> nat \<Rightarrow> 64 word \<Rightarrow> 32 word \<Rightarrow> bool \<times> 64 word \<times> 64 word" where
  "eh_dcmd_source h s index compr_data compr_size =
     (let alignment = (push_bit (ffs compr_data) 1 :: 64 word) in
      if alignment < 64 \<or> ucast compr_size > alignment
      then (True, decompr_buffers s ! index, PAGE_SIZE h)
      else (False, compr_data, if alignment > PAGE_SIZE h then PAGE_SIZE h else alignment))"

text \<open>
  \<^verbatim>\<open>eh_setup_dcmd\<close>.  \<open>virt_to_phys\<close> is the kernel's address translation, the
  destination page is given by its physical address.
\<close>

definition eh_setup_dcmd ::
  "eh_hdr \<Rightarrow> (64 word \<Rightarrow> 64 word) \<Rightarrow> eh_device \<Rightarrow> nat \<Rightarrow> 64 word \<Rightarrow> 32 word \<Rightarrow> 64 word
     \<Rightarrow> eh_device" where
  "eh_setup_dcmd h virt_to_phys s index compr_data compr_size dst_page =
     (let (copy, src_vaddr, alignment) = eh_dcmd_source h s index compr_data compr_size;
          s1 = (if copy then emit [Memcpy src_vaddr compr_data compr_size] s else s);
          src_paddr = virt_to_phys src_vaddr;
          csize_data = (ucast (push_bit (EH_DCMD_CSIZE_SIZE_SHIFT h) compr_size) :: 64 word);
          src_data = push_bit (EH_DCMD_BUF_SIZE_SHIFT h) (of_nat (ffs alignment) - 5) OR src_paddr;
          dst_data = dst_page OR push_bit (EH_DCMD_DEST_STATUS_SHIFT h) (EH_DCMD_PENDING_code h)
      in emit [Write_register (EH_REG_DCMD_CSIZE index) csize_data,
               Write_register (EH_REG_DCMD_BUF0 index) src_data,
               Write_register (EH_REG_DCMD_BUF1 index) 0,
               Write_register (EH_REG_DCMD_BUF2 index) 0,
               Write_register (EH_REG_DCMD_BUF3 index) 0,
               Write_register (EH_REG_DCMD_DEST index) dst_data] s1)"

text \<open>The kernel's \<^verbatim>\<open>time_after(a, b)\<close>: \<open>(long)(b - a) < 0\<close>.\<close>

definition time_after :: "64 word \<Rightarrow> 64 word \<Rightarrow> bool" where
  "time_after a b = (sint (b - a) < 0)"

text \<open>
  The polling loop of \<^verbatim>\<open>eh_decompress_page\<close>.  Each pass reads \<open>jiffies\<close> and, when
  the deadline has not passed, the status of the command: the list holds these pairs
  of reads, pass by pass.  \<open>Inl ()\<close> is the jump to the timeout, \<open>Inr status\<close> the end
  of the loop, \<open>None\<close> a loop still running when the list ends.
\<close>

fun eh_poll :: "64 word \<Rightarrow> (64 word \<times> eh_dcmd_status) list \<Rightarrow> (unit + eh_dcmd_status) option" where
  "eh_poll timeout [] = None"
| "eh_poll timeout ((jiffies, status) # reads) =
     (if time_after jiffies timeout then Some (Inl ())
      else if status = EH_DCMD_PENDING then eh_poll timeout reads
      else Some (Inr status))"

text \<open>
  \<^verbatim>\<open>eh_decompress_page\<close>.  \<open>cpu\<close> is \<^verbatim>\<open>smp_processor_id()\<close>, \<open>jiffies0\<close> the read of
  \<open>jiffies\<close> that sets the deadline.  The remainder by a command count of 0 is
  undefined in C: \<open>None\<close>.
\<close>

definition eh_decompress_page ::
  "eh_hdr \<Rightarrow> (64 word \<Rightarrow> 64 word) \<Rightarrow> eh_device \<Rightarrow> nat \<Rightarrow> 64 word \<Rightarrow> 32 word \<Rightarrow> 64 word
     \<Rightarrow> 64 word \<Rightarrow> (64 word \<times> eh_dcmd_status) list \<Rightarrow> (eh_device \<times> int) option" where
  "eh_decompress_page h virt_to_phys s cpu compr_data compr_size page jiffies0 reads =
     (if decompr_cmd_count s = 0 then None
      else
        let index = cpu mod decompr_cmd_count s;
            s1 = emit [Spin_lock (Decompr_lock index)] s
        in if suspended s1
           then Some (emit [Warn, Spin_unlock (Decompr_lock index)] s1, - EBUSY)
           else if decompr_busy s1 ! index
           then Some (emit [Spin_unlock (Decompr_lock index)] s1, - EBUSY)
           else
             let s2 = eh_setup_dcmd h virt_to_phys s1 index compr_data compr_size page;
                 timeout = jiffies0 + POLL_DELAY h
             in case eh_poll timeout reads of
                  None \<Rightarrow> None
                | Some (Inl u) \<Rightarrow>
                    Some (emit [Pr_err, Dump_regs, Spin_unlock (Decompr_lock index)] s2, - ETIME)
                | Some (Inr status) \<Rightarrow>
                    let s3 = emit [Update_latency EH_DECOMPRESS_POLL] s2 in
                    if status \<noteq> EH_DCMD_DECOMPRESSED
                    then Some (emit [Pr_err, Dump_regs, Spin_unlock (Decompr_lock index)] s3, - EIO)
                    else Some (emit [Spin_unlock (Decompr_lock index)] s3, 0))"

text \<open>
  A call of \<^verbatim>\<open>eh_decompress_page\<close> that gets as far as programming the command, in
  two parts: the call up to and including \<^verbatim>\<open>eh_setup_dcmd\<close>, which leaves the lock of
  the command slot taken, and the polling loop with all that follows it.
  \<open>eh_decompress_page_returns\<close> is the second part as a step of the device: the device
  when the call has returned.
\<close>

definition eh_decompress_page_submit ::
  "eh_hdr \<Rightarrow> (64 word \<Rightarrow> 64 word) \<Rightarrow> eh_device \<Rightarrow> nat \<Rightarrow> 64 word \<Rightarrow> 32 word \<Rightarrow> 64 word
     \<Rightarrow> eh_device" where
  "eh_decompress_page_submit h virt_to_phys s cpu compr_data compr_size page =
     (let index = cpu mod decompr_cmd_count s;
          s1 = emit [Spin_lock (Decompr_lock index)] s
      in eh_setup_dcmd h virt_to_phys s1 index compr_data compr_size page)"

definition eh_decompress_page_poll ::
  "eh_hdr \<Rightarrow> eh_device \<Rightarrow> nat \<Rightarrow> 64 word \<Rightarrow> (64 word \<times> eh_dcmd_status) list
     \<Rightarrow> (eh_device \<times> int) option" where
  "eh_decompress_page_poll h s2 index jiffies0 reads =
     (case eh_poll (jiffies0 + POLL_DELAY h) reads of
        None \<Rightarrow> None
      | Some (Inl u) \<Rightarrow>
          Some (emit [Pr_err, Dump_regs, Spin_unlock (Decompr_lock index)] s2, - ETIME)
      | Some (Inr status) \<Rightarrow>
          let s3 = emit [Update_latency EH_DECOMPRESS_POLL] s2 in
          if status \<noteq> EH_DCMD_DECOMPRESSED
          then Some (emit [Pr_err, Dump_regs, Spin_unlock (Decompr_lock index)] s3, - EIO)
          else Some (emit [Spin_unlock (Decompr_lock index)] s3, 0))"

definition eh_decompress_page_returns ::
  "eh_hdr \<Rightarrow> nat \<Rightarrow> 64 word \<Rightarrow> (64 word \<times> eh_dcmd_status) list \<Rightarrow> eh_device \<Rightarrow> eh_device" where
  "eh_decompress_page_returns h index jiffies0 reads s =
     (case eh_decompress_page_poll h s index jiffies0 reads of
        Some (s', rc) \<Rightarrow> s'
      | None \<Rightarrow> s)"

subsection \<open>Suspend and resume\<close>

text \<open>\<^verbatim>\<open>eh_suspend\<close>; \<open>ctrl\<close> is what \<^verbatim>\<open>EH_REG_CDESC_CTRL\<close> reads.\<close>

definition eh_suspend :: "eh_hdr \<Rightarrow> eh_device \<Rightarrow> 64 word \<Rightarrow> eh_device \<times> int" where
  "eh_suspend h s ctrl =
     (let n = decompr_cmd_count s;
          s1 = emit (Spin_lock Fifo_prod_lock # map (\<lambda>i. Spin_lock (Decompr_lock i)) [0..<n]) s;
          out = map (\<lambda>i. Spin_unlock (Decompr_lock i)) (rev [0..<n]) @ [Spin_unlock Fifo_prod_lock]
      in if nr_request s1 > 0 then (emit (Pr_warn # out) s1, - EBUSY)
         else if list_ex (\<lambda>i. decompr_busy s1 ! i) [0..<n] then (emit (Pr_warn # out) s1, - EBUSY)
         else
           let data = ctrl AND NOT (push_bit (EH_CDESC_CTRL_COMPRESS_ENABLE_SHIFT h) 1);
               s2 = emit [Write_register EH_REG_INTRP_MASK_ERROR (- 1),
                          Write_register EH_REG_INTRP_MASK_CMP (- 1),
                          Write_register EH_REG_INTRP_MASK_DCMP (- 1),
                          Write_register EH_REG_CDESC_CTRL data,
                          Clk_disable_unprepare] s1;
               s3 = emit [Pr_info] (s2\<lparr>suspended := True\<rparr>)
           in (emit out s3, 0))"

text \<open>
  \<^verbatim>\<open>eh_compr_fifo_init\<close>.  The list holds what \<^verbatim>\<open>EH_REG_CDESC_CTRL\<close> reads in the
  passes of the reset loop; \<open>None\<close> is a loop still running when the list ends.
  \<open>fifo_paddr\<close> is \<^verbatim>\<open>virt_to_phys(eh_dev->fifo)\<close>.
\<close>

fun eh_fifo_reset_wait :: "nat \<Rightarrow> 64 word list \<Rightarrow> bool" where
  "eh_fifo_reset_wait b [] = False"
| "eh_fifo_reset_wait b (data # reads) =
     (if data AND push_bit b 1 \<noteq> 0 then eh_fifo_reset_wait b reads else True)"

definition eh_compr_fifo_init ::
  "eh_hdr \<Rightarrow> eh_device \<Rightarrow> 64 word \<Rightarrow> 64 word list \<Rightarrow> eh_device option" where
  "eh_compr_fifo_init h s fifo_paddr reads =
     (let s1 = emit [Write_register EH_REG_CDESC_CTRL (push_bit (EH_CDESC_CTRL_FIFO_RESET h) 1)] s
      in if \<not> eh_fifo_reset_wait (EH_CDESC_CTRL_FIFO_RESET h) reads then None
         else
           let s2 = s1\<lparr>write_index := 0, complete_index := 0\<rparr>;
               data = fifo_paddr OR of_nat (ffs (fifo_size s2))
           in Some (emit [Write_register EH_REG_CDESC_LOC data,
                          Write_register EH_REG_CDESC_CTRL
                            (push_bit (EH_CDESC_CTRL_COMPRESS_ENABLE_SHIFT h) 1)] s2))"

definition eh_resume ::
  "eh_hdr \<Rightarrow> eh_device \<Rightarrow> 64 word \<Rightarrow> 64 word list \<Rightarrow> (eh_device \<times> int) option" where
  "eh_resume h s fifo_paddr reads =
     (case eh_compr_fifo_init h (emit [Spin_lock Fifo_prod_lock, Clk_prepare_enable] s)
             fifo_paddr reads of
        None \<Rightarrow> None
      | Some s1 \<Rightarrow>
          let s2 = emit [Write_register EH_REG_INTRP_MASK_ERROR 0,
                         Write_register EH_REG_INTRP_MASK_CMP 0,
                         Write_register EH_REG_INTRP_MASK_DCMP 0] s1;
              s3 = emit [Pr_info] (s2\<lparr>suspended := False\<rparr>)
          in Some (emit [Spin_unlock Fifo_prod_lock] s3, 0))"

subsection \<open>Waiting for a lock\<close>

text \<open>
  Whether a lock is held after the events of a trace: \<^verbatim>\<open>spin_lock\<close> takes it,
  \<^verbatim>\<open>spin_unlock\<close> releases it.
\<close>

fun lock_step :: "eh_lock \<Rightarrow> bool \<Rightarrow> eh_event \<Rightarrow> bool" where
  "lock_step l held (Spin_lock l') = (if l' = l then True else held)"
| "lock_step l held (Spin_unlock l') = (if l' = l then False else held)"
| "lock_step l held _ = held"

definition lock_held :: "eh_lock \<Rightarrow> eh_event list \<Rightarrow> bool" where
  "lock_held l evs = foldl (lock_step l) False evs"

text \<open>
  The kernel's \<^verbatim>\<open>spin_lock\<close>: the caller spins while another context holds the lock.
  The list holds what the other contexts do to the device while the caller spins, one
  entry for each time the caller finds the lock taken; \<open>None\<close> is a caller still
  spinning when the list ends.  The result is the device with the lock taken, and what
  is left of the list.  \<open>eh_grab_locks\<close> takes the locks of a list one after the other.
\<close>

fun spin_lock ::
  "eh_lock \<Rightarrow> eh_device \<Rightarrow> (eh_device \<Rightarrow> eh_device) list
     \<Rightarrow> (eh_device \<times> (eh_device \<Rightarrow> eh_device) list) option" where
  "spin_lock l s [] =
     (if lock_held l (trace s) then None else Some (emit [Spin_lock l] s, []))"
| "spin_lock l s (other # rest) =
     (if lock_held l (trace s) then spin_lock l (other s) rest
      else Some (emit [Spin_lock l] s, other # rest))"

fun eh_grab_locks ::
  "eh_lock list \<Rightarrow> eh_device \<Rightarrow> (eh_device \<Rightarrow> eh_device) list
     \<Rightarrow> (eh_device \<times> (eh_device \<Rightarrow> eh_device) list) option" where
  "eh_grab_locks [] s others = Some (s, others)"
| "eh_grab_locks (l # ls) s others =
     (case spin_lock l s others of
        None \<Rightarrow> None
      | Some (s', others') \<Rightarrow> eh_grab_locks ls s' others')"

text \<open>
  \<^verbatim>\<open>eh_suspend\<close> with the waiting for its locks: the function from \<open>check pending work\<close>
  on, with all locks taken, and the function as a whole, which takes the lock of the
  ring and then the locks of the command slots by rising index.
\<close>

definition eh_suspend_locked :: "eh_hdr \<Rightarrow> eh_device \<Rightarrow> 64 word \<Rightarrow> eh_device \<times> int" where
  "eh_suspend_locked h s1 ctrl =
     (let n = decompr_cmd_count s1;
          out = map (\<lambda>i. Spin_unlock (Decompr_lock i)) (rev [0..<n]) @ [Spin_unlock Fifo_prod_lock]
      in if nr_request s1 > 0 then (emit (Pr_warn # out) s1, - EBUSY)
         else if list_ex (\<lambda>i. decompr_busy s1 ! i) [0..<n] then (emit (Pr_warn # out) s1, - EBUSY)
         else
           let data = ctrl AND NOT (push_bit (EH_CDESC_CTRL_COMPRESS_ENABLE_SHIFT h) 1);
               s2 = emit [Write_register EH_REG_INTRP_MASK_ERROR (- 1),
                          Write_register EH_REG_INTRP_MASK_CMP (- 1),
                          Write_register EH_REG_INTRP_MASK_DCMP (- 1),
                          Write_register EH_REG_CDESC_CTRL data,
                          Clk_disable_unprepare] s1;
               s3 = emit [Pr_info] (s2\<lparr>suspended := True\<rparr>)
           in (emit out s3, 0))"

definition eh_suspend_spin ::
  "eh_hdr \<Rightarrow> eh_device \<Rightarrow> (eh_device \<Rightarrow> eh_device) list \<Rightarrow> 64 word
     \<Rightarrow> (eh_device \<times> int) option" where
  "eh_suspend_spin h s others ctrl =
     (case eh_grab_locks (Fifo_prod_lock # map Decompr_lock [0..<decompr_cmd_count s]) s others of
        None \<Rightarrow> None
      | Some (s1, rest) \<Rightarrow> Some (eh_suspend_locked h s1 ctrl))"

subsection \<open>Initialisation\<close>

definition ENOMEM :: int where "ENOMEM = 12"
definition EINVAL :: int where "EINVAL = 22"
definition ETIMEDOUT :: int where "ETIMEDOUT = 110"

text \<open>
  What initialisation gets from the kernel and from the device: the results of the
  allocations (an address 0 is a failed page allocation), the two fields of the
  feature register, the reads of \<^verbatim>\<open>EH_REG_GCTRL\<close> and \<^verbatim>\<open>EH_REG_CDESC_CTRL\<close>, and
  the results of \<^verbatim>\<open>request_threaded_irq\<close>, \<^verbatim>\<open>kthread_run\<close> and \<^verbatim>\<open>alloc_percpu\<close>.
\<close>

record eh_init_env =
  env_ioremap_ok :: bool
  env_buf_max :: nat
  env_decompr_cmds :: nat
  env_completions_ok :: bool
  env_fifo_ok :: bool
  env_compr_buffers_ok :: bool
  env_compr_pages :: "64 word list"
  env_cmd_used_ok :: bool
  env_decompr_pages :: "64 word list"
  env_quirk_ignore_gctrl_reset :: bool
  env_gctrl_reads :: "nat \<Rightarrow> 64 word"
  env_fifo_paddr :: "64 word"
  env_ctrl_reads :: "64 word list"
  env_request_irq :: int
  env_kthread_run :: int
  env_percpu_ok :: bool

text \<open>
  The device structure as \<^verbatim>\<open>kzalloc\<close> returns it in \<^verbatim>\<open>eh_of_probe\<close>: every field
  zero.  \<open>n\<close> is the length of the per-command arrays of the structure.
\<close>

definition eh_dev_kzalloc :: "nat \<Rightarrow> eh_device" where
  "eh_dev_kzalloc n =
     \<lparr>fifo_size = 0, fifo_index_mask = 0, fifo_color_mask = 0, write_index = 0,
      complete_index = 0, fifo = [], completions = [], compr_buffers = [], nr_request = 0,
      suspended = False, decompr_cmd_count = 0, decompr_busy = replicate n False,
      decompr_buffers = replicate n NULL, comp_thread_running = False, trace = []\<rparr>"

text \<open>
  \<^verbatim>\<open>eh_init_compression\<close> with \<^verbatim>\<open>init_compression_descriptor\<close>.  The descriptors are
  zeroed memory; that a zeroed status reads as \<open>IDLE\<close> is the start of the descriptor
  lifecycle in the specification, the values of the enumerators being in the absent
  header.
\<close>

definition eh_init_compression :: "eh_device \<Rightarrow> 16 word \<Rightarrow> eh_init_env \<Rightarrow> int + eh_device" where
  "eh_init_compression s fifo_size_arg env =
     (let n = unat fifo_size_arg;
          s1 = s\<lparr>fifo_size := ucast fifo_size_arg,
                  fifo_index_mask := ucast fifo_size_arg - 1,
                  fifo_color_mask := push_bit 1 (ucast fifo_size_arg) - 1,
                  write_index := 0, complete_index := 0\<rparr>
      in if \<not> env_completions_ok env then Inl (- ENOMEM)
         else if \<not> env_fifo_ok env then Inl (- ENOMEM)
         else if \<not> env_compr_buffers_ok env then Inl (- ENOMEM)
         else if length (env_compr_pages env) < n \<or>
                 list_ex (\<lambda>buf. buf = NULL) (take n (env_compr_pages env)) then Inl (- ENOMEM)
         else Inr (s1\<lparr>completions := replicate n \<lparr>priv = NULL\<rparr>,
                      fifo := replicate n \<lparr>desc_src_addr = 0, desc_status = EH_CDESC_IDLE,
                                             desc_compr_len = 0, desc_buf_sel = 0\<rparr>,
                      compr_buffers := take n (env_compr_pages env)\<rparr>))"

definition eh_init_decompression :: "eh_device \<Rightarrow> eh_init_env \<Rightarrow> int + eh_device" where
  "eh_init_decompression s env =
     (let n = decompr_cmd_count s in
      if \<not> env_cmd_used_ok env then Inl (- ENOMEM)
      else if length (env_decompr_pages env) < n \<or>
              list_ex (\<lambda>buf. buf = NULL) (take n (env_decompr_pages env)) then Inl (- ENOMEM)
      else Inr (s\<lparr>decompr_buffers :=
                    take n (env_decompr_pages env) @ drop n (decompr_buffers s)\<rparr>))"

text \<open>\<^verbatim>\<open>eh_reset\<close>: the number of passes of its loop, then the function.\<close>

function eh_reset_wait :: "(nat \<Rightarrow> 64 word) \<Rightarrow> nat \<Rightarrow> nat" where
  "eh_reset_wait reads count =
     (if count < 100 \<and> reads count \<noteq> 0 then eh_reset_wait reads (count + 1) else count)"
  by pat_completeness auto
termination
  by (relation "measure (\<lambda>(reads, count). 100 - count)") auto

declare eh_reset_wait.simps [simp del]

definition eh_reset :: "eh_device \<Rightarrow> eh_init_env \<Rightarrow> eh_device \<times> int" where
  "eh_reset s env =
     (if env_quirk_ignore_gctrl_reset env then (s, 0)
      else (emit [Write_register EH_REG_GCTRL (- 1)] s,
            if eh_reset_wait (env_gctrl_reads env) 0 = 100 then 1 else 0))"

text \<open>\<^verbatim>\<open>eh_hw_init\<close>, \<^verbatim>\<open>eh_sw_init\<close> and \<^verbatim>\<open>eh_init\<close>; a failure returns the error only.\<close>

definition eh_hw_init :: "eh_hdr \<Rightarrow> eh_device \<Rightarrow> 16 word \<Rightarrow> eh_init_env \<Rightarrow> (int + eh_device) option" where
  "eh_hw_init h s fifo_size_arg env =
     (if \<not> env_ioremap_ok env then Some (Inl (- ENOMEM))
      else
        let s1 = s\<lparr>decompr_cmd_count := env_decompr_cmds env\<rparr> in
        if env_buf_max env = 0 \<or> decompr_cmd_count s1 = 0 then Some (Inl (- EINVAL))
        else case eh_init_compression s1 fifo_size_arg env of
               Inl e \<Rightarrow> Some (Inl (- EINVAL))
             | Inr s2 \<Rightarrow>
                 (case eh_init_decompression s2 env of
                    Inl e \<Rightarrow> Some (Inl (- EINVAL))
                  | Inr s3 \<Rightarrow>
                      if snd (eh_reset s3 env) \<noteq> 0 then Some (Inl (- ETIMEDOUT))
                      else (case eh_compr_fifo_init h (fst (eh_reset s3 env))
                                   (env_fifo_paddr env) (env_ctrl_reads env) of
                              None \<Rightarrow> None
                            | Some s5 \<Rightarrow>
                                Some (Inr (emit [Write_register EH_REG_INTRP_MASK_ERROR 0]
                                             s5)))))"

definition eh_sw_init :: "eh_device \<Rightarrow> eh_init_env \<Rightarrow> int + eh_device" where
  "eh_sw_init s env =
     (if env_request_irq env \<noteq> 0 then Inl (env_request_irq env)
      else
        let s1 = s\<lparr>nr_request := 0\<rparr> in
        if env_kthread_run env \<noteq> 0 then Inl (env_kthread_run env)
        else if \<not> env_percpu_ok env then Inl (- ENOMEM)
        else Inr (s1\<lparr>comp_thread_running := True\<rparr>))"

definition eh_init :: "eh_hdr \<Rightarrow> eh_device \<Rightarrow> 16 word \<Rightarrow> eh_init_env \<Rightarrow> (int + eh_device) option" where
  "eh_init h s fifo_size_arg env =
     (if fifo_size_arg = 0 \<or> ffs fifo_size_arg \<noteq> fls fifo_size_arg \<or>
         fifo_size_arg > EH_MAX_FIFO_SIZE h
      then Some (Inl (- EINVAL))
      else case eh_hw_init h s fifo_size_arg env of
             None \<Rightarrow> None
           | Some (Inl e) \<Rightarrow> Some (Inl e)
           | Some (Inr s1) \<Rightarrow> Some (eh_sw_init s1 env))"

subsection \<open>Example values\<close>

text \<open>
  A header and an environment for the examples: 4 KiB pages, a 16-bit index field,
  every allocation successful, a device that leaves reset at once.  \<open>example_dev\<close> is
  a device with a ring of four slots and two decompression commands, as
  \<^verbatim>\<open>eh_init\<close> leaves it.
\<close>

definition example_hdr :: eh_hdr where
  "example_hdr =
     \<lparr>PAGE_SIZE = 4096, EH_MAX_FIFO_SIZE = 32768, EH_CDESC_CTRL_COMPLETE_IDX_MASK = 65535,
      EH_CDESC_CTRL_COMPRESS_ENABLE_SHIFT = 62, EH_CDESC_CTRL_FIFO_RESET = 63,
      EH_DCMD_CSIZE_SIZE_SHIFT = 0, EH_DCMD_BUF_SIZE_SHIFT = 60,
      EH_DCMD_DEST_STATUS_SHIFT = 60, EH_DCMD_PENDING_code = 3, POLL_DELAY = 5\<rparr>"

definition example_env :: eh_init_env where
  "example_env =
     \<lparr>env_ioremap_ok = True, env_buf_max = 1, env_decompr_cmds = 2,
      env_completions_ok = True, env_fifo_ok = True, env_compr_buffers_ok = True,
      env_compr_pages = [4096, 8192, 12288, 16384],
      env_cmd_used_ok = True, env_decompr_pages = [32768, 36864],
      env_quirk_ignore_gctrl_reset = True, env_gctrl_reads = (\<lambda>k. 0),
      env_fifo_paddr = 65536, env_ctrl_reads = [0],
      env_request_irq = 0, env_kthread_run = 0, env_percpu_ok = True\<rparr>"

definition example_dev :: eh_device where
  "example_dev =
     \<lparr>fifo_size = 4, fifo_index_mask = 3, fifo_color_mask = 7, write_index = 0,
      complete_index = 0,
      fifo = replicate 4 \<lparr>desc_src_addr = 0, desc_status = EH_CDESC_IDLE,
                            desc_compr_len = 0, desc_buf_sel = 0\<rparr>,
      completions = replicate 4 \<lparr>priv = NULL\<rparr>,
      compr_buffers = [4096, 8192, 12288, 16384], nr_request = 0, suspended = False,
      decompr_cmd_count = 2, decompr_busy = [False, False],
      decompr_buffers = [32768, 36864], comp_thread_running = True, trace = []\<rparr>"

text \<open>The device writes the result of a compression into a descriptor.\<close>

definition device_writes ::
  "nat \<Rightarrow> eh_cdesc_status \<Rightarrow> 32 word \<Rightarrow> 32 word \<Rightarrow> eh_device \<Rightarrow> eh_device" where
  "device_writes i st len sel s =
     s\<lparr>fifo := (fifo s)[i := (fifo s ! i)\<lparr>desc_status := st, desc_compr_len := len,
                                          desc_buf_sel := sel\<rparr>]\<rparr>"

text \<open>A call of \<^verbatim>\<open>eh_compress_page\<close> that returns without waiting.\<close>

definition example_submit :: "64 word \<Rightarrow> 64 word \<Rightarrow> eh_device \<Rightarrow> eh_device" where
  "example_submit page p s =
     (case eh_compress_page s [] page p of Some (s', rc) \<Rightarrow> s' | None \<Rightarrow> s)"

definition two_in_flight :: eh_device where
  "two_in_flight = example_submit 8192 22 (example_submit 4096 11 example_dev)"

text \<open>
  Four descriptors in flight; the device has completed the first two and has halted
  with an error on the third.
\<close>

definition halted_at_two :: eh_device where
  "halted_at_two =
     device_writes 2 EH_CDESC_ERROR_HALTED 0 0
       (device_writes 1 EH_CDESC_COMPRESSED 900 1
          (device_writes 0 EH_CDESC_COMPRESSED 700 1
             (example_submit 16384 44 (example_submit 12288 33 two_in_flight))))"

subsection \<open>Notions of the specification\<close>

text \<open>
  The natural alignment of a buffer: the largest power of two that divides its
  address.
\<close>

definition natural_alignment :: "64 word \<Rightarrow> nat" where
  "natural_alignment a = Max {p. (\<exists>n. p = 2 ^ n) \<and> p dvd unat a}"

text \<open>
  A pass of the polling loop that leaves the loop running: the deadline has not
  passed and the command is still pending.
\<close>

definition still_pending :: "64 word \<Rightarrow> 64 word \<times> eh_dcmd_status \<Rightarrow> bool" where
  "still_pending timeout r = (\<not> time_after (fst r) timeout \<and> snd r = EH_DCMD_PENDING)"

text \<open>
  The number of descriptors in flight, \<open>(write_index - complete_index) mod 2N\<close>, as the
  driver computes such differences; the slot of the \<open>j\<close>-th descriptor in flight,
  counted from \<open>complete_index\<close>; the slots in flight in ring order, and the tokens
  that the completion records of these slots hold.
\<close>

definition pending :: "eh_device \<Rightarrow> nat" where
  "pending s = unat ((write_index s - complete_index s) AND fifo_color_mask s)"

definition ring_slot :: "eh_device \<Rightarrow> nat \<Rightarrow> nat" where
  "ring_slot s j = unat ((complete_index s + of_nat j) AND fifo_index_mask s)"

definition in_flight_slots :: "eh_device \<Rightarrow> nat list" where
  "in_flight_slots s = map (ring_slot s) [0..<pending s]"

definition in_flight_tokens :: "eh_device \<Rightarrow> 64 word list" where
  "in_flight_tokens s = map (\<lambda>i. priv (completions s ! i)) (in_flight_slots s)"

text \<open>The tokens that the callbacks of a trace were called with, in order.\<close>

fun token_of :: "eh_event \<Rightarrow> 64 word list" where
  "token_of (Comp_callback st d n p) = [p]"
| "token_of _ = []"

definition delivered :: "eh_event list \<Rightarrow> 64 word list" where
  "delivered evs = concat (map token_of evs)"





subsection \<open>Sequences of operations\<close>

text \<open>
  The operations on a device: a pass of \<^verbatim>\<open>eh_compress_page\<close> from \<open>try_again\<close>, the
  device writing the result of a compression into a descriptor, a pass of the
  completion thread, a call of \<^verbatim>\<open>eh_decompress_page\<close>, of \<^verbatim>\<open>eh_suspend\<close> and of
  \<^verbatim>\<open>eh_resume\<close>; each with what it reads.  \<open>eh_apply\<close> is the device after the
  operation, \<open>None\<close> when the operation does not come to an end (the thread has
  returned or waits, a loop does not end).
\<close>

datatype eh_op =
    Compress "64 word" "64 word"
  | Device_write nat eh_cdesc_status "32 word" "32 word"
  | Thread_pass "64 word" "64 word" "64 word"
  | Decompress nat "64 word" "32 word" "64 word" "64 word" "(64 word \<times> eh_dcmd_status) list"
  | Suspend "64 word"
  | Resume "64 word" "64 word list"

fun eh_apply :: "eh_hdr \<Rightarrow> (64 word \<Rightarrow> 64 word) \<Rightarrow> eh_device \<Rightarrow> eh_op \<Rightarrow> eh_device option" where
  "eh_apply h v s (Compress page p) =
     Some (case eh_compress_page_try s page p of Inl r \<Rightarrow> fst r | Inr s' \<Rightarrow> s')"
| "eh_apply h v s (Device_write i st len sel) = Some (device_writes i st len sel s)"
| "eh_apply h v s (Thread_pass raw error raw2) =
     (if comp_thread_running s then eh_comp_thread_pass h s raw error raw2 else None)"
| "eh_apply h v s (Decompress cpu compr_data compr_size page jiffies0 reads) =
     map_option fst (eh_decompress_page h v s cpu compr_data compr_size page jiffies0 reads)"
| "eh_apply h v s (Suspend ctrl) = Some (fst (eh_suspend h s ctrl))"
| "eh_apply h v s (Resume fifo_paddr reads) = map_option fst (eh_resume h s fifo_paddr reads)"

text \<open>
  A run: the operations of a list, one after the other, each allowed by \<open>P\<close> in the
  state it starts from.
\<close>

fun eh_run ::
  "eh_hdr \<Rightarrow> (64 word \<Rightarrow> 64 word) \<Rightarrow> (eh_device \<Rightarrow> eh_op \<Rightarrow> bool) \<Rightarrow> eh_device \<Rightarrow> eh_op list
     \<Rightarrow> eh_device option" where
  "eh_run h v P s [] = Some s"
| "eh_run h v P s (op # ops) =
     (if P s op then (case eh_apply h v s op of None \<Rightarrow> None | Some s' \<Rightarrow> eh_run h v P s' ops)
      else None)"

text \<open>The tokens of the calls of \<^verbatim>\<open>eh_compress_page\<close> of a run that returned 0.\<close>

fun accepted :: "eh_device \<Rightarrow> eh_op \<Rightarrow> 64 word list" where
  "accepted s (Compress page p) =
     (case eh_compress_page_try s page p of
        Inl r \<Rightarrow> if snd r = 0 then [p] else []
      | Inr s' \<Rightarrow> [])"
| "accepted s _ = []"

fun submitted ::
  "eh_hdr \<Rightarrow> (64 word \<Rightarrow> 64 word) \<Rightarrow> eh_device \<Rightarrow> eh_op list \<Rightarrow> 64 word list" where
  "submitted h v s [] = []"
| "submitted h v s (op # ops) =
     accepted s op @ (case eh_apply h v s op of None \<Rightarrow> [] | Some s' \<Rightarrow> submitted h v s' ops)"

text \<open>
  What the driver takes for granted of its environment.  The device writes results
  only into descriptors in flight.  The completion index it reports is an index of
  the ring, not beyond the descriptors in flight.  A device that has halted stays
  where it is: when the thread has met an \<open>ERROR_HALTED\<close> descriptor, the completion
  index read for the abort is the index after that descriptor.  The system resumes
  only a suspended device.
\<close>

definition device_protocol :: "eh_hdr \<Rightarrow> eh_device \<Rightarrow> eh_op \<Rightarrow> bool" where
  "device_protocol h s op =
     (case op of
        Device_write i st len sel \<Rightarrow> i \<in> set (in_flight_slots s)
      | Thread_pass raw error raw2 \<Rightarrow>
          (let e = (ucast (raw AND EH_CDESC_CTRL_COMPLETE_IDX_MASK h) :: 32 word) in
           e AND fifo_color_mask s = e \<and>
           unat ((e - complete_index s) AND fifo_color_mask s) \<le> pending s \<and>
           (case eh_update_complete_index h s raw of
              None \<Rightarrow> True
            | Some r \<Rightarrow>
                snd r \<noteq> 0 \<longrightarrow>
                  (ucast (raw2 AND EH_CDESC_CTRL_COMPLETE_IDX_MASK h) :: 32 word) =
                    complete_index (fst r)))
      | Resume fifo_paddr reads \<Rightarrow> suspended s
      | _ \<Rightarrow> True)"

text \<open>The ring size of the driver (\<^verbatim>\<open>eh_default_fifo_size\<close>).\<close>

definition eh_default_fifo_size :: "16 word" where
  "eh_default_fifo_size = 256"

text \<open>
  The states of a ring of \<open>2 ^ k\<close> slots that the proofs go through: the masks and the
  arrays fit the size, both indices are indices of the doubled ring, at most
  \<open>2 ^ k\<close> descriptors are in flight, \<open>nr_request\<close> counts them, a suspended device has
  none, and every descriptor that is not in flight is \<open>IDLE\<close>.
\<close>

definition ring_ok :: "nat \<Rightarrow> eh_device \<Rightarrow> bool" where
  "ring_ok k s \<longleftrightarrow>
     1 \<le> k \<and> k \<le> 15 \<and> fifo_size s = 2 ^ k \<and> fifo_index_mask s = mask k \<and>
     fifo_color_mask s = mask (Suc k) \<and> length (fifo s) = 2 ^ k \<and>
     length (completions s) = 2 ^ k \<and>
     write_index s AND mask (Suc k) = write_index s \<and>
     complete_index s AND mask (Suc k) = complete_index s"

definition ring_inv :: "nat \<Rightarrow> eh_device \<Rightarrow> bool" where
  "ring_inv k s \<longleftrightarrow>
     ring_ok k s \<and> pending s \<le> 2 ^ k \<and> nr_request s = int (pending s) \<and>
     (suspended s \<longrightarrow> pending s = 0) \<and>
     (\<forall>i<2 ^ k. i \<notin> set (in_flight_slots s) \<longrightarrow> desc_status (fifo s ! i) = EH_CDESC_IDLE)"

text \<open>
  What the completion thread leaves alone: the shape of the ring, the write index,
  the buffers, the suspended flag and everything of the decompression slots.
\<close>

definition ring_frame :: "eh_device \<Rightarrow> eh_device \<Rightarrow> bool" where
  "ring_frame s s' \<longleftrightarrow>
     fifo_size s' = fifo_size s \<and> fifo_index_mask s' = fifo_index_mask s \<and>
     fifo_color_mask s' = fifo_color_mask s \<and> write_index s' = write_index s \<and>
     length (fifo s') = length (fifo s) \<and> length (completions s') = length (completions s) \<and>
     compr_buffers s' = compr_buffers s \<and> suspended s' = suspended s \<and>
     decompr_cmd_count s' = decompr_cmd_count s \<and> decompr_busy s' = decompr_busy s \<and>
     decompr_buffers s' = decompr_buffers s"

text \<open>
  An environment for the size of the driver: 256 compression buffers.  \<open>probe_dev\<close>
  is the device that \<^verbatim>\<open>eh_init\<close> gives with it.
\<close>

definition probe_env :: eh_init_env where
  "probe_env = example_env\<lparr>env_compr_pages := map (\<lambda>i. push_bit 12 (of_nat (Suc i))) [0..<256]\<rparr>"

definition probe_dev :: eh_device where
  "probe_dev =
     (case eh_init example_hdr (eh_dev_kzalloc 2) eh_default_fifo_size probe_env of
        Some (Inr s) \<Rightarrow> s
      | _ \<Rightarrow> eh_dev_kzalloc 2)"

subsection \<open>Example runs\<close>

text \<open>
  \<open>after_ops P s ops\<close> is the device after the run of \<open>ops\<close> from \<open>s\<close>.  In
  \<open>reaping_run\<close> two requests are accepted and the thread delivers the first; then the
  device completes the second.  In \<open>halting_run\<close> the device halts on the only request
  and the thread recovers and ends.
\<close>

definition after_ops ::
  "(eh_device \<Rightarrow> eh_op \<Rightarrow> bool) \<Rightarrow> eh_device \<Rightarrow> eh_op list \<Rightarrow> eh_device" where
  "after_ops P s ops =
     (case eh_run example_hdr (\<lambda>a. a) P s ops of Some s' \<Rightarrow> s' | None \<Rightarrow> s)"



text \<open>
  \<open>started_dev\<close> is the device that \<^verbatim>\<open>eh_init\<close> gives with a ring of four slots.
  After \<open>quiet_run\<close> it has served a compression and a decompression and nothing is
  pending: \<open>quiet_dev\<close>.  In \<open>decompressing_dev\<close> processor 1 is inside
  \<^verbatim>\<open>eh_decompress_page\<close> on that device, polling.
\<close>

definition started_dev :: eh_device where
  "started_dev =
     (case eh_init example_hdr (eh_dev_kzalloc 2) 4 example_env of
        Some (Inr s) \<Rightarrow> s
      | _ \<Rightarrow> eh_dev_kzalloc 2)"

definition quiet_run :: "eh_op list" where
  "quiet_run =
     [Compress 4096 11, Device_write 0 EH_CDESC_COMPRESSED 700 1, Thread_pass 1 0 0,
      Decompress 0 128 100 20480 1000 [(1001, EH_DCMD_DECOMPRESSED)]]"

definition quiet_dev :: eh_device where
  "quiet_dev = after_ops (\<lambda>s op. True) started_dev quiet_run"

definition decompressing_dev :: eh_device where
  "decompressing_dev = eh_decompress_page_submit example_hdr (\<lambda>a. a) quiet_dev 1 128 100 20480"

section \<open>Properties\<close>

subsection \<open>Reaping one descriptor\<close>

lemma unat_pow2: "n < LENGTH('a) \<Longrightarrow> unat (2 ^ n :: 'a::len word) = 2 ^ n"
  using unsigned_push_bit_eq[where 'a=nat, of n "1::'a word"]
  by (simp add: push_bit_eq_mult take_bit_nat_eq_self)

text \<open>
  C4 (as the code has it).  A descriptor found \<open>IDLE\<close> or \<open>PENDING\<close> at an index the
  device reported as completed makes the thread dump the registers, log and warn.
  Then, as for every status, the callback is called (with the status found, no data,
  the length field and the token), the descriptor is reset to \<open>IDLE\<close>, \<open>nr_request\<close> is
  decremented and the congestion flag is cleared; the function returns 0.
  \<^verbatim>\<open>eh_process_completions\<close> then clears the token of the completion record, moves
  \<open>complete_index\<close> by one and goes on to the next slot.  Only \<open>ERROR_HALTED\<close> makes
  the function return 1.
\<close>

theorem idle_or_pending_descriptor_is_reaped:
  assumes "desc_status (fifo s ! fifo_index) = EH_CDESC_IDLE \<or>
           desc_status (fifo s ! fifo_index) = EH_CDESC_PENDING"
    and "fifo_index = unat (ucast (i AND fifo_index_mask s) :: 16 word)"
    and "i \<noteq> end_index"
  shows "eh_process_completed_descriptor h s fifo_index cmpl =
           (s\<lparr>fifo := (fifo s)[fifo_index :=
                          (fifo s ! fifo_index)\<lparr>desc_status := EH_CDESC_IDLE\<rparr>],
               nr_request := nr_request s - 1,
               trace := trace s @
                 [Update_latency EH_COMPRESS, Dump_regs, Pr_err, Warn,
                  Comp_callback (desc_status (fifo s ! fifo_index)) NULL
                    (desc_compr_len (fifo s ! fifo_index)) (priv cmpl),
                  Clear_eh_congested]\<rparr>, 0) \<and>
         (fifo_index < length (fifo s) \<longrightarrow>
            desc_status (fifo (fst (eh_process_completed_descriptor h s fifo_index cmpl)) !
                           fifo_index) = EH_CDESC_IDLE) \<and>
         eh_process_slot h s i =
           (let index = unat (i AND fifo_index_mask s)
            in (s\<lparr>fifo := (fifo s)[fifo_index :=
                             (fifo s ! fifo_index)\<lparr>desc_status := EH_CDESC_IDLE\<rparr>],
                  nr_request := nr_request s - 1,
                  completions := (completions s)[index :=
                                   (completions s ! index)\<lparr>priv := NULL\<rparr>],
                  complete_index := (complete_index s + 1) AND fifo_color_mask s,
                  trace := trace s @
                    [Update_latency EH_COMPRESS, Dump_regs, Pr_err, Warn,
                     Comp_callback (desc_status (fifo s ! fifo_index)) NULL
                       (desc_compr_len (fifo s ! fifo_index)) (priv (completions s ! index)),
                     Clear_eh_congested]\<rparr>, 0)) \<and>
         eh_process_completions h s i end_index =
           eh_process_completions h (fst (eh_process_slot h s i))
             ((i + 1) AND fifo_color_mask s) end_index"
proof -
  have d: "eh_process_completed_descriptor h s fifo_index c =
           (s\<lparr>fifo := (fifo s)[fifo_index :=
                          (fifo s ! fifo_index)\<lparr>desc_status := EH_CDESC_IDLE\<rparr>],
               nr_request := nr_request s - 1,
               trace := trace s @
                 [Update_latency EH_COMPRESS, Dump_regs, Pr_err, Warn,
                  Comp_callback (desc_status (fifo s ! fifo_index)) NULL
                    (desc_compr_len (fifo s ! fifo_index)) (priv c),
                  Clear_eh_congested]\<rparr>, 0)" for c
    using assms(1) by (auto simp: eh_process_completed_descriptor_def Let_def emit_def)
  have idle: "desc_status (fifo (fst (eh_process_completed_descriptor h s fifo_index cmpl)) !
                fifo_index) = EH_CDESC_IDLE" if "fifo_index < length (fifo s)"
    using that by (simp add: d)
  have slot: "eh_process_slot h s i =
           (let index = unat (i AND fifo_index_mask s)
            in (s\<lparr>fifo := (fifo s)[fifo_index :=
                             (fifo s ! fifo_index)\<lparr>desc_status := EH_CDESC_IDLE\<rparr>],
                  nr_request := nr_request s - 1,
                  completions := (completions s)[index :=
                                   (completions s ! index)\<lparr>priv := NULL\<rparr>],
                  complete_index := (complete_index s + 1) AND fifo_color_mask s,
                  trace := trace s @
                    [Update_latency EH_COMPRESS, Dump_regs, Pr_err, Warn,
                     Comp_callback (desc_status (fifo s ! fifo_index)) NULL
                       (desc_compr_len (fifo s ! fifo_index)) (priv (completions s ! index)),
                     Clear_eh_congested]\<rparr>, 0))"
    unfolding eh_process_slot_def Let_def assms(2)[symmetric] d by simp
  have loop: "eh_process_completions h s i end_index =
           eh_process_completions h (fst (eh_process_slot h s i))
             ((i + 1) AND fifo_color_mask s) end_index"
    using assms(3) by (subst eh_process_completions.simps) (simp add: slot Let_def)
  show ?thesis using d idle slot loop by blast
qed

theorem idle_or_pending_descriptor_is_reaped_witness:
  "(desc_status (fifo two_in_flight ! 0) = EH_CDESC_IDLE \<or>
    desc_status (fifo two_in_flight ! 0) = EH_CDESC_PENDING) \<and>
   (0::nat) = unat (ucast ((0::32 word) AND fifo_index_mask two_in_flight) :: 16 word) \<and>
   (0::32 word) \<noteq> 2 \<and>
   eh_process_completed_descriptor example_hdr two_in_flight 0 \<lparr>priv = 11\<rparr> =
     (two_in_flight
        \<lparr>fifo := (fifo two_in_flight)[0 :=
                    (fifo two_in_flight ! 0)\<lparr>desc_status := EH_CDESC_IDLE\<rparr>],
         nr_request := 1,
         trace := trace two_in_flight @
           [Update_latency EH_COMPRESS, Dump_regs, Pr_err, Warn,
            Comp_callback EH_CDESC_PENDING NULL 0 11, Clear_eh_congested]\<rparr>, 0) \<and>
   desc_status (fifo (fst (eh_process_completed_descriptor example_hdr two_in_flight 0
                             \<lparr>priv = 11\<rparr>)) ! 0) = EH_CDESC_IDLE \<and>
   eh_process_completions example_hdr two_in_flight 0 2 =
     eh_process_completions example_hdr (fst (eh_process_slot example_hdr two_in_flight 0))
       ((0 + 1) AND fifo_color_mask two_in_flight) 2"
proof -
  have a: "desc_status (fifo two_in_flight ! 0) = EH_CDESC_IDLE \<or>
           desc_status (fifo two_in_flight ! 0) = EH_CDESC_PENDING"
    by code_simp
  have b: "(0::nat) = unat (ucast ((0::32 word) AND fifo_index_mask two_in_flight) :: 16 word)"
    by simp
  have c: "(0::32 word) \<noteq> 2" by simp
  have d: "desc_status (fifo two_in_flight ! 0) = EH_CDESC_PENDING"
    "desc_compr_len (fifo two_in_flight ! 0) = 0" "nr_request two_in_flight = 2"
    "0 < length (fifo two_in_flight)"
    by code_simp+
  note t = idle_or_pending_descriptor_is_reaped[OF a b c, of example_hdr "\<lparr>priv = 11\<rparr>"]
  have t1: "eh_process_completed_descriptor example_hdr two_in_flight 0 \<lparr>priv = 11\<rparr> =
     (two_in_flight
        \<lparr>fifo := (fifo two_in_flight)[0 :=
                    (fifo two_in_flight ! 0)\<lparr>desc_status := EH_CDESC_IDLE\<rparr>],
         nr_request := 1,
         trace := trace two_in_flight @
           [Update_latency EH_COMPRESS, Dump_regs, Pr_err, Warn,
            Comp_callback EH_CDESC_PENDING NULL 0 11, Clear_eh_congested]\<rparr>, 0)"
    using t[THEN conjunct1] by (simp add: d)
  have t2: "desc_status (fifo (fst (eh_process_completed_descriptor example_hdr two_in_flight 0
                             \<lparr>priv = 11\<rparr>)) ! 0) = EH_CDESC_IDLE"
    using t[THEN conjunct2, THEN conjunct1] d(4) by blast
  have t3: "eh_process_completions example_hdr two_in_flight 0 2 =
     eh_process_completions example_hdr (fst (eh_process_slot example_hdr two_in_flight 0))
       ((0 + 1) AND fifo_color_mask two_in_flight) 2"
    using t by blast
  show ?thesis using a b c t1 t2 t3 by blast
qed

text \<open>
  C4 (as the specification has it) fails: with two descriptors in flight, the first
  still \<open>PENDING\<close> and the device reporting both as completed, the thread reaps both
  slots, calls no synthesized \<open>ERROR_HALTED\<close> completion and keeps running, even with
  a non-zero error register.
\<close>

theorem pending_descriptor_does_not_halt:
  "map_option (\<lambda>s. (callbacks (trace s), complete_index s, comp_thread_running s))
     (eh_comp_thread_pass example_hdr
        (device_writes 1 EH_CDESC_COMPRESSED 700 1 two_in_flight) 2 1 2) =
   Some ([Comp_callback EH_CDESC_PENDING NULL 0 11,
          Comp_callback EH_CDESC_COMPRESSED 8192 700 22], 2, True)"
  by code_simp

text \<open>
  C9 (as the code has it).  For \<open>ZERO\<close> and \<open>ABORT\<close> the callback gets the status, a
  \<open>NULL\<close> data pointer, the length field of the descriptor as the device left it, and
  the token; for \<open>COPIED\<close> and \<open>COMPRESSED\<close> it gets the buffer of the slot, moved by
  half a page when the buffer selection is 2, and the length field.
\<close>

theorem completion_callback_arguments:
  "(desc_status (fifo s ! fifo_index) = EH_CDESC_ZERO \<or>
    desc_status (fifo s ! fifo_index) = EH_CDESC_ABORT \<longrightarrow>
      callbacks (trace (fst (eh_process_completed_descriptor h s fifo_index cmpl))) =
        callbacks (trace s) @
          [Comp_callback (desc_status (fifo s ! fifo_index)) NULL
             (desc_compr_len (fifo s ! fifo_index)) (priv cmpl)]) \<and>
   (desc_status (fifo s ! fifo_index) = EH_CDESC_COPIED \<or>
    desc_status (fifo s ! fifo_index) = EH_CDESC_COMPRESSED \<longrightarrow>
      callbacks (trace (fst (eh_process_completed_descriptor h s fifo_index cmpl))) =
        callbacks (trace s) @
          [Comp_callback (desc_status (fifo s ! fifo_index))
             (compr_buffers s ! fifo_index +
                (if desc_buf_sel (fifo s ! fifo_index) = 2 then PAGE_SIZE h div 2 else 0))
             (desc_compr_len (fifo s ! fifo_index)) (priv cmpl)])"
  by (auto simp: eh_process_completed_descriptor_def Let_def emit_def callbacks_def)

theorem completion_callback_arguments_witness:
  "callbacks (trace (fst (eh_process_completed_descriptor example_hdr
      (device_writes 0 EH_CDESC_ABORT 3000 0 two_in_flight) 0 \<lparr>priv = 11\<rparr>))) =
     [Comp_callback EH_CDESC_ABORT NULL 3000 11] \<and>
   callbacks (trace (fst (eh_process_completed_descriptor example_hdr
      (device_writes 0 EH_CDESC_COMPRESSED 700 2 two_in_flight) 0 \<lparr>priv = 11\<rparr>))) =
     [Comp_callback EH_CDESC_COMPRESSED (4096 + 2048) 700 11]"
proof -
  have a: "desc_status (fifo (device_writes 0 EH_CDESC_ABORT 3000 0 two_in_flight) ! 0) =
           EH_CDESC_ABORT"
    and a': "desc_compr_len (fifo (device_writes 0 EH_CDESC_ABORT 3000 0 two_in_flight) ! 0) =
           3000"
    and a'': "callbacks (trace (device_writes 0 EH_CDESC_ABORT 3000 0 two_in_flight)) = []"
    by code_simp+
  have b: "desc_status (fifo (device_writes 0 EH_CDESC_COMPRESSED 700 2 two_in_flight) ! 0) =
           EH_CDESC_COMPRESSED"
    and b': "desc_compr_len (fifo (device_writes 0 EH_CDESC_COMPRESSED 700 2 two_in_flight) ! 0)
           = 700"
    and b'': "desc_buf_sel (fifo (device_writes 0 EH_CDESC_COMPRESSED 700 2 two_in_flight) ! 0)
           = 2"
    and b''': "compr_buffers (device_writes 0 EH_CDESC_COMPRESSED 700 2 two_in_flight) ! 0
           = 4096"
    and b'''': "callbacks (trace (device_writes 0 EH_CDESC_COMPRESSED 700 2 two_in_flight)) = []"
    by code_simp+
  show ?thesis
    using completion_callback_arguments[of "device_writes 0 EH_CDESC_ABORT 3000 0 two_in_flight"
        0 example_hdr "\<lparr>priv = 11\<rparr>"]
      completion_callback_arguments[of "device_writes 0 EH_CDESC_COMPRESSED 700 2 two_in_flight"
        0 example_hdr "\<lparr>priv = 11\<rparr>"]
    by (simp add: a a' a'' b b' b'' b''' b'''' example_hdr_def)
qed

text \<open>
  C9 (as the specification has it) fails: a descriptor with status \<open>ZERO\<close> whose
  length field holds 700 is delivered with size 700, not 0.
\<close>

theorem zero_descriptor_size_not_zero:
  "callbacks (trace (fst (eh_process_completed_descriptor example_hdr
      (device_writes 0 EH_CDESC_ZERO 700 0 two_in_flight) 0 \<lparr>priv = 11\<rparr>))) =
     [Comp_callback EH_CDESC_ZERO NULL 700 11] \<and>
   callbacks (trace (fst (eh_process_completed_descriptor example_hdr
      (device_writes 0 EH_CDESC_ZERO 700 0 two_in_flight) 0 \<lparr>priv = 11\<rparr>))) \<noteq>
     [Comp_callback EH_CDESC_ZERO NULL 0 11]"
  by code_simp

subsection \<open>Submission to a suspended device\<close>

text \<open>
  C5 (as the code has it).  A call of \<^verbatim>\<open>eh_compress_page\<close> on a suspended device
  returns \<open>-EBUSY\<close> at once, whatever would happen during a wait: it warns, takes and
  releases the lock and changes nothing else, so nothing is queued.  A caller in the
  congestion wait that finds the device suspended when it tries again returns
  \<open>-EBUSY\<close> as well.
\<close>

theorem eh_compress_page_suspended:
  "(suspended s \<longrightarrow>
      eh_compress_page s others page priv_arg =
        Some (emit [Spin_lock Fifo_prod_lock, Warn, Spin_unlock Fifo_prod_lock] s, - EBUSY)) \<and>
   (eh_compress_page_try s page priv_arg = Inr s1 \<and> suspended (other s1) \<longrightarrow>
      eh_compress_page s (other # rest) page priv_arg =
        Some (emit [Spin_lock Fifo_prod_lock, Warn, Spin_unlock Fifo_prod_lock] (other s1),
              - EBUSY))"
proof -
  have attempt: "eh_compress_page_try t page priv_arg =
      Inl (emit [Spin_lock Fifo_prod_lock, Warn, Spin_unlock Fifo_prod_lock] t, - EBUSY)"
    if "suspended t" for t
    using that by (simp add: eh_compress_page_try_def emit_def)
  have ret: "eh_compress_page t ws page priv_arg =
      Some (emit [Spin_lock Fifo_prod_lock, Warn, Spin_unlock Fifo_prod_lock] t, - EBUSY)"
    if "suspended t" for t ws
    using attempt[OF that] by (cases ws) simp_all
  show ?thesis using ret by simp
qed

theorem eh_compress_page_suspended_witness:
  "suspended (example_dev\<lparr>suspended := True\<rparr>) \<and>
   eh_compress_page (example_dev\<lparr>suspended := True\<rparr>) [] 4096 11 =
     Some (emit [Spin_lock Fifo_prod_lock, Warn, Spin_unlock Fifo_prod_lock]
             (example_dev\<lparr>suspended := True\<rparr>), - EBUSY)"
  using eh_compress_page_suspended[of "example_dev\<lparr>suspended := True\<rparr>" "[]" 4096 11]
  by simp

text \<open>
  C5 (as the specification has it) fails in one point: the error of a suspended
  device is not a code of its own.  It is \<open>-EBUSY\<close>, the value that
  \<^verbatim>\<open>eh_decompress_page\<close> returns for a busy command slot.
\<close>

theorem suspended_error_is_busy_error:
  "map_option snd (eh_compress_page (example_dev\<lparr>suspended := True\<rparr>) [] 4096 11) =
     Some (- EBUSY) \<and>
   map_option snd (eh_decompress_page example_hdr (\<lambda>a. a)
      (example_dev\<lparr>decompr_busy := [True, False]\<rparr>) 0 128 100 20480 1000 []) =
     Some (- EBUSY)"
  by code_simp

subsection \<open>Decompression\<close>

lemma eh_poll_dropWhile:
  "eh_poll timeout reads =
     (case dropWhile (still_pending timeout) reads of
        [] \<Rightarrow> None
      | (jiffies, status) # rest \<Rightarrow>
          if time_after jiffies timeout then Some (Inl ()) else Some (Inr status))"
  by (induction reads) (auto simp: still_pending_def)

text \<open>
  C6.  On a device that is not suspended, with the command slot free, the call is
  decided by the first pass of the polling loop at which the deadline has passed or
  the status is no longer \<open>PENDING\<close>: with the deadline passed the call returns
  \<open>-ETIME\<close>; otherwise the latency is recorded, and the call returns \<open>-EIO\<close> when the
  status is not \<open>DECOMPRESSED\<close> and 0 when it is.  The lock of the slot is released
  last in each case.
\<close>

theorem eh_decompress_page_outcomes:
  assumes "decompr_cmd_count s \<noteq> 0" and "\<not> suspended s"
    and "\<not> decompr_busy s ! (cpu mod decompr_cmd_count s)"
    and "dropWhile (still_pending (jiffies0 + POLL_DELAY h)) reads = (jiffies, status) # rest"
  shows "eh_decompress_page h virt_to_phys s cpu compr_data compr_size page jiffies0 reads =
     (let index = cpu mod decompr_cmd_count s;
          s2 = eh_setup_dcmd h virt_to_phys (emit [Spin_lock (Decompr_lock index)] s) index
                 compr_data compr_size page
      in if time_after jiffies (jiffies0 + POLL_DELAY h)
         then Some (emit [Pr_err, Dump_regs, Spin_unlock (Decompr_lock index)] s2, - ETIME)
         else if status \<noteq> EH_DCMD_DECOMPRESSED
         then Some (emit [Update_latency EH_DECOMPRESS_POLL, Pr_err, Dump_regs,
                          Spin_unlock (Decompr_lock index)] s2, - EIO)
         else Some (emit [Update_latency EH_DECOMPRESS_POLL,
                          Spin_unlock (Decompr_lock index)] s2, 0))"
  using assms
  by (simp add: eh_decompress_page_def Let_def eh_poll_dropWhile emit_def)

theorem eh_decompress_page_outcomes_witness:
  "decompr_cmd_count example_dev \<noteq> 0 \<and> \<not> suspended example_dev \<and>
   \<not> decompr_busy example_dev ! (0 mod decompr_cmd_count example_dev) \<and>
   dropWhile (still_pending (1000 + POLL_DELAY example_hdr))
     [(1001, EH_DCMD_PENDING), (1002, EH_DCMD_DECOMPRESSED)] =
     [(1002, EH_DCMD_DECOMPRESSED)] \<and>
   map_option snd (eh_decompress_page example_hdr (\<lambda>a. a) example_dev 0 128 100 20480 1000
     [(1001, EH_DCMD_PENDING), (1002, EH_DCMD_DECOMPRESSED)]) = Some 0"
proof -
  have a: "decompr_cmd_count example_dev \<noteq> 0" by code_simp
  have b: "\<not> suspended example_dev" by code_simp
  have c: "\<not> decompr_busy example_dev ! (0 mod decompr_cmd_count example_dev)" by code_simp
  have d: "dropWhile (still_pending (1000 + POLL_DELAY example_hdr))
     [(1001, EH_DCMD_PENDING), (1002, EH_DCMD_DECOMPRESSED)] =
     (1002, EH_DCMD_DECOMPRESSED) # []" by code_simp
  have e: "\<not> time_after 1002 (1000 + POLL_DELAY example_hdr)" by code_simp
  show ?thesis
    using eh_decompress_page_outcomes[OF a b c d, of "\<lambda>a. a" 128 100 20480] a b c d e
    by (simp add: Let_def)
qed

lemma ffs_nat_dvd: "2 ^ ffs_nat n dvd n"
proof (induction n rule: ffs_nat.induct)
  case (1 n)
  show ?case
  proof (cases "n = 0 \<or> odd n")
    case True
    then show ?thesis by (subst ffs_nat.simps) auto
  next
    case False
    then have ih: "2 ^ ffs_nat (n div 2) dvd n div 2" using 1 by simp
    from False have "n = 2 * (n div 2)" by auto
    moreover have "2 * 2 ^ ffs_nat (n div 2) dvd 2 * (n div 2)"
      using ih by (rule mult_dvd_mono[OF dvd_refl])
    ultimately show ?thesis using False by (subst ffs_nat.simps) simp
  qed
qed

lemma ffs_nat_max: "0 < n \<Longrightarrow> 2 ^ m dvd n \<Longrightarrow> m \<le> ffs_nat n"
proof (induction n arbitrary: m rule: ffs_nat.induct)
  case (1 n)
  show ?case
  proof (cases "odd n")
    case True
    with 1(3) have "m = 0" by (cases m) auto
    then show ?thesis by simp
  next
    case False
    show ?thesis
    proof (cases m)
      case 0 then show ?thesis by simp
    next
      case (Suc m')
      from False 1(2) have n2: "n = 2 * (n div 2)" "0 < n div 2" by auto
      from 1(3) Suc have "2 * 2 ^ m' dvd 2 * (n div 2)" using n2 by simp
      then have "2 ^ m' dvd n div 2" by simp
      then have "m' \<le> ffs_nat (n div 2)" using 1(1)[of m'] False 1(2) n2 by simp
      then show ?thesis using False 1(2) Suc by (subst ffs_nat.simps) simp
    qed
  qed
qed

lemma natural_alignment_ffs:
  assumes "a \<noteq> 0"
  shows "natural_alignment a = 2 ^ ffs a"
proof -
  have pos: "0 < unat a" using assms by (simp add: unat_gt_0)
  let ?S = "{p. (\<exists>n. p = 2 ^ n) \<and> p dvd unat a}"
  have fin: "finite ?S"
  proof (rule finite_subset)
    show "?S \<subseteq> {..unat a}" using pos by (auto dest: dvd_imp_le)
  qed simp
  have mem: "2 ^ ffs a \<in> ?S" by (auto simp: ffs_def ffs_nat_dvd)
  have ub: "p \<le> 2 ^ ffs a" if "p \<in> ?S" for p
  proof -
    from that obtain n where "p = 2 ^ n" "2 ^ n dvd unat a" by auto
    then show ?thesis using ffs_nat_max[OF pos, of n] by (simp add: ffs_def)
  qed
  show ?thesis unfolding natural_alignment_def
    by (rule Max_eqI[OF fin]) (use mem ub in auto)
qed

lemma ffs_lt_64:
  fixes a :: "64 word"
  assumes "a \<noteq> 0"
  shows "ffs a < 64"
proof -
  have pos: "0 < unat a" using assms by (simp add: unat_gt_0)
  have "(2::nat) ^ ffs a \<le> unat a"
    using ffs_nat_dvd[of "unat a"] pos by (auto simp: ffs_def dest: dvd_imp_le)
  also have "unat a < 2 ^ 64" using unsigned_less[of a, where 'a=nat] by simp
  finally have "(2::nat) ^ ffs a < 2 ^ 64" .
  then show ?thesis by (rule power_less_imp_less_exp[rotated]) simp
qed

lemma unat_alignment:
  fixes a :: "64 word"
  assumes "a \<noteq> 0"
  shows "unat (push_bit (ffs a) 1 :: 64 word) = natural_alignment a"
proof -
  have "unat (push_bit (ffs a) 1 :: 64 word) = 2 ^ ffs a"
    using ffs_lt_64[OF assms] by (simp add: unat_pow2)
  then show ?thesis by (simp add: natural_alignment_ffs[OF assms])
qed

lemma eh_dcmd_source_natural:
  fixes a :: "64 word"
  assumes "a \<noteq> 0"
  shows "eh_dcmd_source h s index a n =
     (if natural_alignment a < 64 \<or> natural_alignment a < unat n
      then (True, decompr_buffers s ! index, PAGE_SIZE h)
      else (False, a, min (of_nat (natural_alignment a)) (PAGE_SIZE h)))"
proof -
  let ?al = "push_bit (ffs a) 1 :: 64 word"
  have 1: "(?al < 64) = (natural_alignment a < 64)"
    using unat_alignment[OF assms] by (simp add: word_less_nat_alt)
  have 2: "(ucast n > ?al) = (unat n > natural_alignment a)"
    using unat_alignment[OF assms]
    by (simp add: word_less_nat_alt unsigned_ucast_eq take_bit_nat_eq_self
        order_less_le_trans[OF unsigned_less[of n, where 'a=nat]])
  have 3: "of_nat (natural_alignment a) = ?al"
    by (simp add: natural_alignment_ffs[OF assms])
  show ?thesis
    unfolding eh_dcmd_source_def Let_def 1 2 3 by (auto simp: min_def)
qed

text \<open>
  C7.  For a source buffer at a non-null address, \<^verbatim>\<open>eh_setup_dcmd\<close> copies the data to
  the buffer of the slot exactly when the natural alignment of the address is below
  64 or below the compressed size, and then gives the device the slot's buffer with
  the alignment of a page.  Otherwise there is no copy: the device is given the
  buffer itself, with its natural alignment or that of a page, whichever is less.
\<close>

theorem eh_setup_dcmd_copy_iff:
  assumes "compr_data \<noteq> 0"
  shows "trace (eh_setup_dcmd h virt_to_phys s index compr_data compr_size page) =
     (let copy = (natural_alignment compr_data < 64 \<or>
                  natural_alignment compr_data < unat compr_size);
          src = (if copy then decompr_buffers s ! index else compr_data);
          alignment = (if copy then PAGE_SIZE h
                       else min (of_nat (natural_alignment compr_data)) (PAGE_SIZE h))
      in trace s @ (if copy then [Memcpy src compr_data compr_size] else []) @
         [Write_register (EH_REG_DCMD_CSIZE index)
            (ucast (push_bit (EH_DCMD_CSIZE_SIZE_SHIFT h) compr_size)),
          Write_register (EH_REG_DCMD_BUF0 index)
            (push_bit (EH_DCMD_BUF_SIZE_SHIFT h) (of_nat (ffs alignment) - 5) OR
             virt_to_phys src),
          Write_register (EH_REG_DCMD_BUF1 index) 0,
          Write_register (EH_REG_DCMD_BUF2 index) 0,
          Write_register (EH_REG_DCMD_BUF3 index) 0,
          Write_register (EH_REG_DCMD_DEST index)
            (page OR push_bit (EH_DCMD_DEST_STATUS_SHIFT h) (EH_DCMD_PENDING_code h))])"
  by (simp add: eh_setup_dcmd_def eh_dcmd_source_natural[OF assms] Let_def emit_def)

theorem eh_setup_dcmd_copy_iff_witness:
  "(128::64 word) \<noteq> 0 \<and>
   trace (eh_setup_dcmd example_hdr (\<lambda>a. a) example_dev 0 128 100 20480) =
     [Write_register (EH_REG_DCMD_CSIZE 0) 100,
      Write_register (EH_REG_DCMD_BUF0 0) (push_bit 60 2 OR 128),
      Write_register (EH_REG_DCMD_BUF1 0) 0,
      Write_register (EH_REG_DCMD_BUF2 0) 0,
      Write_register (EH_REG_DCMD_BUF3 0) 0,
      Write_register (EH_REG_DCMD_DEST 0) (20480 OR push_bit 60 3)] \<and>
   (136::64 word) \<noteq> 0 \<and>
   trace (eh_setup_dcmd example_hdr (\<lambda>a. a) example_dev 0 136 100 20480) =
     [Memcpy 32768 136 100,
      Write_register (EH_REG_DCMD_CSIZE 0) 100,
      Write_register (EH_REG_DCMD_BUF0 0) (push_bit 60 7 OR 32768),
      Write_register (EH_REG_DCMD_BUF1 0) 0,
      Write_register (EH_REG_DCMD_BUF2 0) 0,
      Write_register (EH_REG_DCMD_BUF3 0) 0,
      Write_register (EH_REG_DCMD_DEST 0) (20480 OR push_bit 60 3)]"
proof -
  have a: "(128::64 word) \<noteq> 0" and b: "(136::64 word) \<noteq> 0" by simp_all
  have na: "natural_alignment 128 = 128" "natural_alignment 136 = 8"
    by (simp_all add: natural_alignment_ffs ffs_def ffs_nat.simps)
  have f: "ffs (128 :: 64 word) = 7" "ffs (4096 :: 64 word) = 12"
    by (simp_all add: ffs_def ffs_nat.simps)
  have ex: "trace example_dev = []" "decompr_buffers example_dev ! 0 = 32768"
    "PAGE_SIZE example_hdr = 4096" "EH_DCMD_CSIZE_SIZE_SHIFT example_hdr = 0"
    "EH_DCMD_BUF_SIZE_SHIFT example_hdr = 60" "EH_DCMD_DEST_STATUS_SHIFT example_hdr = 60"
    "EH_DCMD_PENDING_code example_hdr = 3"
    by (simp_all add: example_dev_def example_hdr_def)
  show ?thesis
    using eh_setup_dcmd_copy_iff[OF a, of example_hdr "\<lambda>a. a" example_dev 0 100 20480]
      eh_setup_dcmd_copy_iff[OF b, of example_hdr "\<lambda>a. a" example_dev 0 100 20480]
    by (simp add: na f ex Let_def)
qed

subsection \<open>Arithmetic of the ring indices\<close>

lemma uint_and_mask: "uint (x AND mask n) = uint x mod 2 ^ n"
proof -
  have "uint (x AND mask n) = uint (take_bit n x)" by (simp only: take_bit_eq_mask)
  also have "\<dots> = take_bit n (uint x)" by (rule unsigned_take_bit_eq)
  also have "\<dots> = uint x mod 2 ^ n" by (rule take_bit_eq_mod)
  finally show ?thesis .
qed

lemma uint_add_mask:
  fixes a b :: "'a::len word"
  assumes "n \<le> LENGTH('a)"
  shows "uint ((a + b) AND mask n) = (uint a + uint b) mod 2 ^ n"
  using assms by (simp add: uint_and_mask uint_word_ariths mod_mod_cancel le_imp_power_dvd)

lemma uint_sub_mask:
  fixes a b :: "'a::len word"
  assumes "n \<le> LENGTH('a)"
  shows "uint ((a - b) AND mask n) = (uint a - uint b) mod 2 ^ n"
  using assms by (simp add: uint_and_mask uint_word_ariths mod_mod_cancel le_imp_power_dvd)

lemma uint_masked_range:
  assumes "x AND mask n = x"
  shows "0 \<le> uint x \<and> uint x < 2 ^ n"
proof -
  have "uint x = uint x mod 2 ^ n" using assms uint_and_mask[of x n] by simp
  then show ?thesis by (metis pos_mod_bound uint_ge_0 zero_less_numeral zero_less_power)
qed

lemma word_eq_of_uint_mod:
  fixes x y :: "'a::len word"
  assumes "x AND mask n = x" "y AND mask n = y" "(uint x - uint y) mod 2 ^ n = 0"
  shows "x = y"
proof -
  have rx: "0 \<le> uint x \<and> uint x < 2 ^ n" and ry: "0 \<le> uint y \<and> uint y < 2 ^ n"
    using assms uint_masked_range by blast+
  have "uint x mod 2 ^ n = uint y mod 2 ^ n"
    using assms(3) by (simp add: mod_eq_dvd_iff dvd_eq_mod_eq_0)
  then have "uint x = uint y" using rx ry by simp
  then show ?thesis by (simp add: word_uint_eq_iff)
qed

lemma uint_of_nat_mask:
  fixes c :: "'a::len word"
  assumes "n \<le> LENGTH('a)"
  shows "uint ((c + of_nat j) AND mask n) = (uint c + int j) mod 2 ^ n"
proof -
  have "uint (of_nat j :: 'a word) = int j mod 2 ^ LENGTH('a)"
    by (simp add: unsigned_of_nat take_bit_eq_mod of_nat_mod)
  moreover have d: "(2::int) ^ n dvd 2 ^ LENGTH('a)" using assms by (rule le_imp_power_dvd)
  have "(int j mod 2 ^ LENGTH('a)) mod 2 ^ n = int j mod 2 ^ n"
    using d by (rule mod_mod_cancel)
  then have "(uint c + int j mod 2 ^ LENGTH('a)) mod 2 ^ n = (uint c + int j) mod 2 ^ n"
    by (metis mod_add_right_eq)
  ultimately
  have "(uint c + uint (of_nat j :: 'a word)) mod 2 ^ n = (uint c + int j) mod 2 ^ n"
    by simp
  then show ?thesis using uint_add_mask[OF assms, of c "of_nat j"] by simp
qed

lemma uint_pow2: "n < LENGTH('a) \<Longrightarrow> uint (2 ^ n :: 'a::len word) = 2 ^ n"
  using unat_pow2[of n, where 'a='a] by (simp add: uint_nat)

lemma nat_le_pow2_int: "(n \<le> 2 ^ k) = (int n \<le> 2 ^ k)"
  by (metis of_nat_le_iff of_nat_numeral of_nat_power)

lemma nat_less_pow2_int: "(n < 2 ^ k) = (int n < 2 ^ k)"
  by (metis of_nat_less_iff of_nat_numeral of_nat_power)

lemma nat_eq_pow2_int: "(n = 2 ^ k) = (int n = 2 ^ k)"
  by (metis of_nat_eq_iff of_nat_numeral of_nat_power)

lemma ring_ok_ints:
  assumes "ring_ok k s"
  shows "0 \<le> uint (write_index s)" and "uint (write_index s) < 2 ^ Suc k"
    and "0 \<le> uint (complete_index s)" and "uint (complete_index s) < 2 ^ Suc k"
    and "int (pending s) = (uint (write_index s) - uint (complete_index s)) mod 2 ^ Suc k"
    and "int (ring_slot s j) = (uint (complete_index s) + int j) mod 2 ^ k"
    and "uint (fifo_size s) = 2 ^ k"
proof -
  from assms have k: "1 \<le> k" "k \<le> 15"
    and m: "fifo_index_mask s = mask k" "fifo_color_mask s = mask (Suc k)"
    and w: "write_index s AND mask (Suc k) = write_index s"
    and c: "complete_index s AND mask (Suc k) = complete_index s"
    and n: "fifo_size s = 2 ^ k"
    by (simp_all add: ring_ok_def)
  show "0 \<le> uint (write_index s)" "uint (write_index s) < 2 ^ Suc k"
    using uint_masked_range[OF w] by simp_all
  show "0 \<le> uint (complete_index s)" "uint (complete_index s) < 2 ^ Suc k"
    using uint_masked_range[OF c] by simp_all
  show "int (pending s) = (uint (write_index s) - uint (complete_index s)) mod 2 ^ Suc k"
    using k uint_sub_mask[of "Suc k" "write_index s" "complete_index s"]
    by (simp add: pending_def m)
  show "int (ring_slot s j) = (uint (complete_index s) + int j) mod 2 ^ k"
    using k uint_of_nat_mask[of k "complete_index s" j]
    by (simp add: ring_slot_def m)
  show "uint (fifo_size s) = 2 ^ k"
    using k by (simp add: n uint_pow2)
qed

lemma ring_slot_less: "ring_ok k s \<Longrightarrow> ring_slot s j < 2 ^ k"
proof -
  assume "ring_ok k s"
  then have "int (ring_slot s j) < 2 ^ k" by (simp add: ring_ok_ints(6))
  then show ?thesis by (simp only: nat_less_pow2_int)
qed

lemma mod_pow2_inj:
  fixes c :: int
  assumes "(c + int i) mod 2 ^ k = (c + int j) mod 2 ^ k" "i < 2 ^ k" "j < 2 ^ k"
  shows "i = j"
proof -
  have "(2::int) ^ k dvd (c + int i) - (c + int j)"
    using assms(1) by (simp add: mod_eq_dvd_iff)
  then have d: "(2::int) ^ k dvd int i - int j" by simp
  have "int i < 2 ^ k" "int j < 2 ^ k" using assms(2,3) by (simp_all only: nat_less_pow2_int)
  then have lt: "\<bar>int i - int j\<bar> < 2 ^ k" by linarith
  have "int i - int j = 0"
  proof (rule ccontr)
    assume "int i - int j \<noteq> 0"
    then have "\<bar>(2::int) ^ k\<bar> \<le> \<bar>int i - int j\<bar>" using d by (rule dvd_imp_le_int)
    then show False using lt by simp
  qed
  then show ?thesis by simp
qed

lemma ring_slot_inj:
  assumes "ring_ok k s" "ring_slot s i = ring_slot s j" "i < 2 ^ k" "j < 2 ^ k"
  shows "i = j"
  using assms ring_ok_ints(6)[OF assms(1)] mod_pow2_inj by metis

lemma distinct_in_flight_slots:
  assumes "ring_ok k s" "pending s \<le> 2 ^ k"
  shows "distinct (in_flight_slots s)"
proof -
  have "inj_on (ring_slot s) (set [0..<pending s])"
    using assms by (auto simp: inj_on_def intro: ring_slot_inj[OF assms(1)])
  then show ?thesis by (simp add: in_flight_slots_def distinct_map)
qed

lemma next_slot_free:
  assumes "ring_ok k s" "pending s < 2 ^ k"
  shows "ring_slot s (pending s) \<notin> set (in_flight_slots s)"
proof
  assume "ring_slot s (pending s) \<in> set (in_flight_slots s)"
  then obtain j where j: "j < pending s" "ring_slot s j = ring_slot s (pending s)"
    by (auto simp: in_flight_slots_def)
  then have "j = pending s" using ring_slot_inj[OF assms(1), of j "pending s"] assms(2) by simp
  then show False using j by simp
qed

text \<open>The test for a full ring in \<^verbatim>\<open>eh_compress_page\<close>, and the slot it writes.\<close>

lemma next_pending:
  assumes "ring_ok k s" "pending s \<le> 2 ^ k"
  shows "uint ((((write_index s + 1) AND fifo_color_mask s) - complete_index s) AND
            fifo_color_mask s) = int (pending s) + 1"
proof -
  note i = ring_ok_ints[OF assms(1)]
  from assms(1) have k: "1 \<le> k" "k \<le> 15" and m: "fifo_color_mask s = mask (Suc k)"
    by (simp_all add: ring_ok_def)
  let ?M = "(2::int) ^ Suc k"
  let ?W = "uint (write_index s)" and ?C = "uint (complete_index s)"
  have "uint ((((write_index s + 1) AND mask (Suc k)) - complete_index s) AND mask (Suc k)) =
        (uint ((write_index s + 1) AND mask (Suc k)) - ?C) mod ?M"
    using k by (simp add: uint_sub_mask)
  also have "\<dots> = ((?W + 1) mod ?M - ?C) mod ?M"
    using k uint_add_mask[of "Suc k" "write_index s" 1] by simp
  also have "\<dots> = (?W + 1 - ?C) mod ?M" by (rule mod_diff_left_eq)
  also have "\<dots> = (?W - ?C + 1) mod ?M" by (simp add: algebra_simps)
  also have "\<dots> = ((?W - ?C) mod ?M + 1) mod ?M" by (rule mod_add_left_eq[symmetric])
  also have "\<dots> = (int (pending s) + 1) mod ?M" by (simp add: i(5))
  also have "\<dots> = int (pending s) + 1"
  proof -
    have a: "(2::int) ^ k \<ge> 2"
      using k by (metis power_increasing one_le_numeral power_one_right)
    have b: "int (pending s) \<le> 2 ^ k" using assms(2) by (simp only: nat_le_pow2_int)
    have c: "?M = 2 * 2 ^ k" by simp
    have "int (pending s) + 1 < ?M" unfolding c using a b by linarith
    then show ?thesis by simp
  qed
  finally show ?thesis by (simp add: m)
qed

lemma full_test:
  assumes "ring_ok k s" "pending s \<le> 2 ^ k"
  shows "((((write_index s + 1) AND fifo_color_mask s) - complete_index s) AND
            fifo_color_mask s > fifo_size s) = (pending s = 2 ^ k)"
proof -
  note i = ring_ok_ints[OF assms(1)]
  note u = next_pending[OF assms]
  have b: "int (pending s) \<le> 2 ^ k" using assms(2) by (simp only: nat_le_pow2_int)
  have "(int (pending s) + 1 > 2 ^ k) = (int (pending s) = 2 ^ k)" using b by linarith
  then have "(int (pending s) + 1 > 2 ^ k) = (pending s = 2 ^ k)"
    by (simp only: nat_eq_pow2_int)
  moreover have "(fifo_size s < (((write_index s + 1) AND fifo_color_mask s) -
      complete_index s) AND fifo_color_mask s) = (2 ^ k < int (pending s) + 1)"
    unfolding word_less_def u i(7) ..
  ultimately show ?thesis by simp
qed

lemma write_slot:
  assumes "ring_ok k s"
  shows "unat (write_index s AND fifo_index_mask s) = ring_slot s (pending s)"
proof -
  note i = ring_ok_ints[OF assms(1)]
  from assms(1) have m: "fifo_index_mask s = mask k" by (simp add: ring_ok_def)
  let ?W = "uint (write_index s)" and ?C = "uint (complete_index s)"
  have d: "(2::int) ^ k dvd 2 ^ Suc k" by simp
  have "((?W - ?C) mod 2 ^ Suc k) mod 2 ^ k = (?W - ?C) mod 2 ^ k"
    using d by (rule mod_mod_cancel)
  then have "(?C + (?W - ?C) mod 2 ^ Suc k) mod 2 ^ k = (?C + (?W - ?C)) mod 2 ^ k"
    by (metis mod_add_right_eq)
  then have "int (ring_slot s (pending s)) = ?W mod 2 ^ k"
    by (simp only: i(6) i(5)) simp
  then have "int (ring_slot s (pending s)) = uint (write_index s AND mask k)"
    by (simp only: uint_and_mask)
  then show ?thesis by (metis m nat_int unat_eq_nat_uint)
qed

subsection \<open>Submission keeps the ring consistent\<close>

lemma try_Inl_fields:
  assumes "eh_compress_page_try s page p = Inl (s', rc)" "\<not> suspended s"
  shows "rc = 0"
    and "write_index s' = (write_index s + 1) AND fifo_color_mask s"
    and "complete_index s' = complete_index s"
    and "fifo s' = (fifo s)[unat (write_index s AND fifo_index_mask s) :=
           (fifo s ! unat (write_index s AND fifo_index_mask s))
             \<lparr>desc_src_addr := page, desc_status := EH_CDESC_PENDING\<rparr>]"
    and "completions s' = (completions s)[unat (write_index s AND fifo_index_mask s) :=
           (completions s ! unat (write_index s AND fifo_index_mask s))\<lparr>priv := p\<rparr>]"
    and "nr_request s' = nr_request s + 1"
    and "trace s' = trace s @ [Spin_lock Fifo_prod_lock, Wake_up_comp_wq,
           Write_register EH_REG_CDESC_WRIDX (ucast ((write_index s + 1) AND fifo_color_mask s)),
           Spin_unlock Fifo_prod_lock]"
    and "fifo_size s' = fifo_size s" and "fifo_index_mask s' = fifo_index_mask s"
    and "fifo_color_mask s' = fifo_color_mask s" and "suspended s' = suspended s"
    and "comp_thread_running s' = comp_thread_running s"
    and "\<not> (((write_index s + 1) AND fifo_color_mask s) - complete_index s) AND
            fifo_color_mask s > fifo_size s"
  using assms
  by (auto simp: eh_compress_page_try_def Let_def emit_def eh_setup_descriptor_def
      split: if_splits)

lemma try_Inr_fields:
  assumes "eh_compress_page_try s page p = Inr s'"
  shows "s' = emit [Spin_lock Fifo_prod_lock, Spin_unlock Fifo_prod_lock, Congestion_wait] s"
    and "\<not> suspended s"
    and "(((write_index s + 1) AND fifo_color_mask s) - complete_index s) AND
            fifo_color_mask s > fifo_size s"
  using assms
  by (auto simp: eh_compress_page_try_def Let_def emit_def split: if_splits)

lemma try_suspended:
  assumes "suspended s"
  shows "eh_compress_page_try s page p =
     Inl (emit [Spin_lock Fifo_prod_lock, Warn, Spin_unlock Fifo_prod_lock] s, - EBUSY)"
  using assms by (simp add: eh_compress_page_try_def emit_def)

lemma delivered_append [simp]: "delivered (xs @ ys) = delivered xs @ delivered ys"
  by (simp add: delivered_def)

lemma delivered_Nil [simp]: "delivered [] = []"
  by (simp add: delivered_def)

lemma delivered_Cons: "delivered (e # es) = token_of e @ delivered es"
  by (simp add: delivered_def)

text \<open>
  The quantities of the invariant depend on some fields only; a state that agrees on
  them has the same.
\<close>

lemma pending_cong:
  "write_index s' = write_index s \<Longrightarrow> complete_index s' = complete_index s \<Longrightarrow>
   fifo_color_mask s' = fifo_color_mask s \<Longrightarrow> pending s' = pending s"
  by (simp add: pending_def)

lemma ring_slot_cong:
  "complete_index s' = complete_index s \<Longrightarrow> fifo_index_mask s' = fifo_index_mask s \<Longrightarrow>
   ring_slot s' = ring_slot s"
  by (simp add: ring_slot_def fun_eq_iff)

lemma admit_inv:
  assumes inv: "ring_inv k s" and p: "pending s < 2 ^ k" and ns: "\<not> suspended s"
    and w: "write_index s' = (write_index s + 1) AND fifo_color_mask s"
    and c: "complete_index s' = complete_index s"
    and f: "fifo s' = (fifo s)[unat (write_index s AND fifo_index_mask s) :=
           (fifo s ! unat (write_index s AND fifo_index_mask s))
             \<lparr>desc_src_addr := page, desc_status := EH_CDESC_PENDING\<rparr>]"
    and cm: "completions s' = (completions s)[unat (write_index s AND fifo_index_mask s) :=
           (completions s ! unat (write_index s AND fifo_index_mask s))\<lparr>priv := tok\<rparr>]"
    and nr: "nr_request s' = nr_request s + 1"
    and st: "fifo_size s' = fifo_size s" "fifo_index_mask s' = fifo_index_mask s"
      "fifo_color_mask s' = fifo_color_mask s" "suspended s' = suspended s"
  shows "ring_inv k s'" and "pending s' = Suc (pending s)"
    and "in_flight_tokens s' = in_flight_tokens s @ [tok]"
    and "desc_status (fifo s ! unat (write_index s AND fifo_index_mask s)) = EH_CDESC_IDLE"
proof -
  from inv have ok: "ring_ok k s" and ple: "pending s \<le> 2 ^ k"
    and nrq: "nr_request s = int (pending s)"
    and idle: "\<And>i. i < 2 ^ k \<Longrightarrow> i \<notin> set (in_flight_slots s) \<Longrightarrow>
                 desc_status (fifo s ! i) = EH_CDESC_IDLE"
    by (simp_all add: ring_inv_def)
  from ok have k: "1 \<le> k" "k \<le> 15" and m: "fifo_index_mask s = mask k"
    "fifo_color_mask s = mask (Suc k)" and len: "length (fifo s) = 2 ^ k"
    "length (completions s) = 2 ^ k"
    by (simp_all add: ring_ok_def)
  let ?slot = "unat (write_index s AND fifo_index_mask s)"
  have slot: "?slot = ring_slot s (pending s)" by (rule write_slot[OF ok])
  have slot_lt: "?slot < 2 ^ k" unfolding slot by (rule ring_slot_less[OF ok])
  have free: "?slot \<notin> set (in_flight_slots s)" unfolding slot by (rule next_slot_free[OF ok p])
  have wm: "write_index s' AND mask (Suc k) = write_index s'"
    by (simp add: w m)
  have ok': "ring_ok k s'"
    using ok wm by (simp add: ring_ok_def st c f cm)
  have "int (pending s') = int (pending s) + 1"
    using next_pending[OF ok ple] by (simp add: pending_def w c st)
  then show p': "pending s' = Suc (pending s)" by simp
  have rs: "ring_slot s' = ring_slot s" by (rule ring_slot_cong) (simp_all add: c st)
  have ifs: "in_flight_slots s' = in_flight_slots s @ [?slot]"
    by (simp add: in_flight_slots_def p' rs slot)
  show "desc_status (fifo s ! ?slot) = EH_CDESC_IDLE" by (rule idle[OF slot_lt free])
  have old: "priv (completions s' ! i) = priv (completions s ! i)"
    if "i \<in> set (in_flight_slots s)" for i
  proof -
    from that free have "i \<noteq> ?slot" by blast
    then show ?thesis by (simp add: cm)
  qed
  show "in_flight_tokens s' = in_flight_tokens s @ [tok]"
    using slot_lt len old by (simp add: in_flight_tokens_def ifs cm)
  have idle': "desc_status (fifo s' ! i) = EH_CDESC_IDLE"
    if "i < 2 ^ k" "i \<notin> set (in_flight_slots s')" for i
  proof -
    from that(2) have "i \<noteq> ?slot" "i \<notin> set (in_flight_slots s)" by (simp_all add: ifs)
    then show ?thesis using idle[OF that(1)] by (simp add: f)
  qed
  show "ring_inv k s'"
    using ok' p p' nrq idle' ns by (simp add: ring_inv_def nr st)
qed

subsection \<open>Reaping keeps the ring consistent\<close>

lemma trunc16_mask:
  fixes x :: "32 word"
  assumes "k \<le> 15"
  shows "(ucast (ucast (x AND mask k) :: 16 word) :: 32 word) = x AND mask k"
  using assms by (intro bit_word_eqI) (auto simp: bit_simps)

lemma unat_ucast_16_32: "unat (ucast (y :: 16 word) :: 32 word) = unat y"
  by (simp add: unsigned_ucast_eq take_bit_nat_eq_self
      order_less_le_trans[OF unsigned_less[of y, where 'a=nat]])

lemma trunc16_mask_unat:
  fixes x :: "32 word"
  assumes "k \<le> 15"
  shows "unat (ucast (x AND mask k) :: 16 word) = unat (x AND mask k)"
proof -
  have "unat (ucast (x AND mask k) :: 16 word) =
        unat (ucast (ucast (x AND mask k) :: 16 word) :: 32 word)"
    by (simp only: unat_ucast_16_32)
  then show ?thesis by (simp only: trunc16_mask[OF assms])
qed

lemma trunc64_mask:
  fixes X :: "64 word"
  assumes "k \<le> 15"
  shows "(ucast (ucast (X AND ucast (mask k :: 32 word)) :: 16 word) :: 32 word) =
         (ucast X :: 32 word) AND mask k"
  using assms by (intro bit_word_eqI) (auto simp: bit_simps)

lemma delivered_switch [simp]: "delivered (snd (snd (compr_switch st buf))) = []"
  by (cases st) (simp_all add: delivered_Cons)

lemma callbacks_switch [simp]: "callbacks (snd (snd (compr_switch st buf))) = []"
  by (cases st) (simp_all add: callbacks_def)

lemma ret_switch [simp]:
  "(fst (snd (compr_switch st buf)) \<noteq> 0) = (st = EH_CDESC_ERROR_HALTED)"
  by (cases st) simp_all

lemma process_slot_fields:
  fixes h s i
  defines "ci \<equiv> unat (i AND fifo_index_mask s)"
    and "di \<equiv> unat (ucast (i AND fifo_index_mask s) :: 16 word)"
    and "s' \<equiv> fst (eh_process_slot h s i)"
  shows "complete_index s' = (complete_index s + 1) AND fifo_color_mask s"
    and "write_index s' = write_index s"
    and "fifo s' = (fifo s)[di := (fifo s ! di)\<lparr>desc_status := EH_CDESC_IDLE\<rparr>]"
    and "completions s' = (completions s)[ci := (completions s ! ci)\<lparr>priv := NULL\<rparr>]"
    and "nr_request s' = nr_request s - 1"
    and "delivered (trace s') = delivered (trace s) @ [priv (completions s ! ci)]"
    and "fifo_size s' = fifo_size s" and "fifo_index_mask s' = fifo_index_mask s"
    and "fifo_color_mask s' = fifo_color_mask s" and "suspended s' = suspended s"
    and "comp_thread_running s' = comp_thread_running s"
    and "(snd (eh_process_slot h s i) \<noteq> 0) =
           (desc_status (fifo s ! di) = EH_CDESC_ERROR_HALTED)"
  unfolding ci_def di_def s'_def
  by (simp_all add: eh_process_slot_def eh_process_completed_descriptor_def Let_def split_beta
      emit_def delivered_Cons)

lemma reap_inv:
  assumes inv: "ring_inv k s" and p: "0 < pending s"
    and c: "complete_index s' = (complete_index s + 1) AND fifo_color_mask s"
    and w: "write_index s' = write_index s"
    and f: "fifo s' = (fifo s)[ring_slot s 0 :=
              (fifo s ! ring_slot s 0)\<lparr>desc_status := EH_CDESC_IDLE\<rparr>]"
    and cm: "completions s' = (completions s)[ring_slot s 0 :=
              (completions s ! ring_slot s 0)\<lparr>priv := NULL\<rparr>]"
    and nr: "nr_request s' = nr_request s - 1"
    and st: "fifo_size s' = fifo_size s" "fifo_index_mask s' = fifo_index_mask s"
      "fifo_color_mask s' = fifo_color_mask s" "suspended s' = suspended s"
  shows "ring_inv k s'" and "pending s' = pending s - 1"
    and "in_flight_tokens s = priv (completions s ! ring_slot s 0) # in_flight_tokens s'"
proof -
  from inv have ok: "ring_ok k s" and ple: "pending s \<le> 2 ^ k"
    and nrq: "nr_request s = int (pending s)"
    and sus: "suspended s \<longrightarrow> pending s = 0"
    and idle: "\<And>i. i < 2 ^ k \<Longrightarrow> i \<notin> set (in_flight_slots s) \<Longrightarrow>
                 desc_status (fifo s ! i) = EH_CDESC_IDLE"
    by (simp_all add: ring_inv_def)
  from ok have k: "1 \<le> k" "k \<le> 15" and m: "fifo_index_mask s = mask k"
    "fifo_color_mask s = mask (Suc k)" and len: "length (fifo s) = 2 ^ k"
    "length (completions s) = 2 ^ k"
    by (simp_all add: ring_ok_def)
  note i = ring_ok_ints[OF ok]
  let ?M = "(2::int) ^ Suc k"
  let ?W = "uint (write_index s)" and ?C = "uint (complete_index s)"
  have cmk: "complete_index s' AND mask (Suc k) = complete_index s'" by (simp add: c m)
  have ok': "ring_ok k s'" using ok cmk by (simp add: ring_ok_def st w f cm)
  note i' = ring_ok_ints[OF ok']
  have uc: "uint (complete_index s') = (?C + 1) mod ?M"
    using k uint_add_mask[of "Suc k" "complete_index s" 1] by (simp add: c m)
  have pint: "1 \<le> int (pending s)" "int (pending s) \<le> 2 ^ k"
  proof -
    show "1 \<le> int (pending s)" using p by simp
    show "int (pending s) \<le> 2 ^ k" using ple by (simp only: nat_le_pow2_int)
  qed
  have "int (pending s') = (?W - (?C + 1) mod ?M) mod ?M"
    by (simp add: i'(5) w uc)
  also have "\<dots> = (?W - (?C + 1)) mod ?M" by (rule mod_diff_right_eq)
  also have "\<dots> = (?W - ?C - 1) mod ?M" by (simp add: algebra_simps)
  also have "\<dots> = ((?W - ?C) mod ?M - 1) mod ?M" by (rule mod_diff_left_eq[symmetric])
  also have "\<dots> = (int (pending s) - 1) mod ?M" by (simp add: i(5))
  also have "\<dots> = int (pending s) - 1"
  proof -
    have "?M = 2 * 2 ^ k" by simp
    then have "0 \<le> int (pending s) - 1" "int (pending s) - 1 < ?M" using pint by linarith+
    then show ?thesis by simp
  qed
  finally have "int (pending s') = int (pending s) - 1" .
  then show p': "pending s' = pending s - 1" using p by linarith
  have d: "(2::int) ^ k dvd ?M" by simp
  have rs: "ring_slot s' j = ring_slot s (Suc j)" for j
  proof -
    have "int (ring_slot s' j) = ((?C + 1) mod ?M + int j) mod 2 ^ k"
      by (simp add: i'(6) uc)
    also have "\<dots> = (((?C + 1) mod ?M) mod 2 ^ k + int j) mod 2 ^ k"
      by (rule mod_add_left_eq[symmetric])
    also have "((?C + 1) mod ?M) mod 2 ^ k = (?C + 1) mod 2 ^ k"
      using d by (rule mod_mod_cancel)
    also have "((?C + 1) mod 2 ^ k + int j) mod 2 ^ k = (?C + 1 + int j) mod 2 ^ k"
      by (rule mod_add_left_eq)
    also have "\<dots> = int (ring_slot s (Suc j))" by (simp add: i(6) algebra_simps)
    finally show ?thesis by simp
  qed
  obtain q where q: "pending s = Suc q" using p by (cases "pending s") simp_all
  have ifs: "in_flight_slots s = ring_slot s 0 # in_flight_slots s'"
    by (simp add: in_flight_slots_def p' q rs map_upt_Suc del: upt_Suc)
  have dist: "distinct (in_flight_slots s)" by (rule distinct_in_flight_slots[OF ok ple])
  then have notin: "ring_slot s 0 \<notin> set (in_flight_slots s')" by (simp add: ifs)
  have s0: "ring_slot s 0 < 2 ^ k" by (rule ring_slot_less[OF ok])
  have keep: "priv (completions s' ! x) = priv (completions s ! x)"
    if "x \<in> set (in_flight_slots s')" for x
  proof -
    from that notin have "x \<noteq> ring_slot s 0" by blast
    then show ?thesis by (simp add: cm)
  qed
  show "in_flight_tokens s = priv (completions s ! ring_slot s 0) # in_flight_tokens s'"
    using keep by (simp add: in_flight_tokens_def ifs)
  have idle': "desc_status (fifo s' ! x) = EH_CDESC_IDLE"
    if "x < 2 ^ k" "x \<notin> set (in_flight_slots s')" for x
  proof (cases "x = ring_slot s 0")
    case True
    then show ?thesis using s0 len by (simp add: f)
  next
    case False
    with that(2) have "x \<notin> set (in_flight_slots s)" by (simp add: ifs)
    then show ?thesis using idle[OF that(1)] False by (simp add: f)
  qed
  have "\<not> suspended s" using sus p by auto
  then show "ring_inv k s'"
    using ok' ple p p' nrq idle' by (simp add: ring_inv_def nr st)
qed

lemma first_slot:
  assumes "ring_ok k s"
  shows "unat (complete_index s AND fifo_index_mask s) = ring_slot s 0"
    and "unat (ucast (complete_index s AND fifo_index_mask s) :: 16 word) = ring_slot s 0"
proof -
  from assms have k: "k \<le> 15" and m: "fifo_index_mask s = mask k" by (simp_all add: ring_ok_def)
  show a: "unat (complete_index s AND fifo_index_mask s) = ring_slot s 0"
    by (simp add: ring_slot_def)
  show "unat (ucast (complete_index s AND fifo_index_mask s) :: 16 word) = ring_slot s 0"
    using trunc16_mask_unat[OF k, of "complete_index s"] a by (simp add: m)
qed

lemma reap_step:
  fixes h
  assumes inv: "ring_inv k s" and p: "0 < pending s"
  defines "s1 \<equiv> fst (eh_process_slot h s (complete_index s))"
  shows "ring_inv k s1" and "pending s1 = pending s - 1"
    and "in_flight_tokens s = priv (completions s ! ring_slot s 0) # in_flight_tokens s1"
    and "delivered (trace s1) = delivered (trace s) @ [priv (completions s ! ring_slot s 0)]"
    and "write_index s1 = write_index s"
    and "comp_thread_running s1 = comp_thread_running s"
    and "complete_index s1 = (complete_index s + 1) AND fifo_color_mask s"
    and "fifo_color_mask s1 = fifo_color_mask s"
proof -
  from inv have ok: "ring_ok k s" by (simp add: ring_inv_def)
  note fs = first_slot[OF ok]
  note pf = process_slot_fields[of h s "complete_index s", folded s1_def, unfolded fs]
  show "ring_inv k s1" "pending s1 = pending s - 1"
    "in_flight_tokens s = priv (completions s ! ring_slot s 0) # in_flight_tokens s1"
    by (rule reap_inv[OF inv p pf(1) pf(2) pf(3) pf(4) pf(5) pf(7) pf(8) pf(9) pf(10)])+
  show "delivered (trace s1) = delivered (trace s) @ [priv (completions s ! ring_slot s 0)]"
    by (rule pf(6))
  show "write_index s1 = write_index s" by (rule pf(2))
  show "comp_thread_running s1 = comp_thread_running s" by (rule pf(11))
  show "complete_index s1 = (complete_index s + 1) AND fifo_color_mask s" by (rule pf(1))
  show "fifo_color_mask s1 = fifo_color_mask s" by (rule pf(9))
qed

lemma distance_step:
  fixes e c :: "32 word"
  assumes k: "k \<le> 15" and d: "unat ((e - c) AND mask (Suc k)) = Suc d"
  shows "unat ((e - ((c + 1) AND mask (Suc k))) AND mask (Suc k)) = d"
proof -
  let ?M = "(2::int) ^ Suc k"
  have sk: "Suc k \<le> LENGTH(32)" using k by simp
  have a: "(uint e - uint c) mod ?M = int (Suc d)"
    using d uint_sub_mask[OF sk, of e c] by (metis uint_nat)
  have "uint ((e - ((c + 1) AND mask (Suc k))) AND mask (Suc k)) =
        (uint e - uint ((c + 1) AND mask (Suc k))) mod ?M"
    by (rule uint_sub_mask[OF sk])
  also have "\<dots> = (uint e - (uint c + 1) mod ?M) mod ?M"
    using uint_add_mask[OF sk, of c 1] by simp
  also have "\<dots> = (uint e - (uint c + 1)) mod ?M" by (rule mod_diff_right_eq)
  also have "\<dots> = (uint e - uint c - 1) mod ?M" by (simp add: algebra_simps)
  also have "\<dots> = ((uint e - uint c) mod ?M - 1) mod ?M" by (rule mod_diff_left_eq[symmetric])
  also have "\<dots> = (int (Suc d) - 1) mod ?M" by (simp only: a)
  also have "\<dots> = int d mod ?M" by simp
  also have "\<dots> = int d"
  proof -
    have "int (Suc d) < ?M" using a by (metis pos_mod_bound zero_less_numeral zero_less_power)
    then show ?thesis by simp
  qed
  finally show ?thesis by (metis nat_int unat_eq_nat_uint)
qed

lemma distance_zero:
  fixes e c :: "32 word"
  assumes k: "k \<le> 15" and e: "e AND mask (Suc k) = e" and c: "c AND mask (Suc k) = c"
    and d: "unat ((e - c) AND mask (Suc k)) = 0"
  shows "e = c"
proof -
  have sk: "Suc k \<le> LENGTH(32)" using k by simp
  have "uint ((e - c) AND mask (Suc k)) = int (unat ((e - c) AND mask (Suc k)))"
    by (rule uint_nat)
  then have "uint ((e - c) AND mask (Suc k)) = 0" by (simp only: d)
  then have "(uint e - uint c) mod 2 ^ Suc k = 0" using uint_sub_mask[OF sk, of e c] by simp
  then show ?thesis by (rule word_eq_of_uint_mod[OF e c])
qed

text \<open>
  The loop of \<^verbatim>\<open>eh_process_completions\<close> ends when the reported index is an index
  of the ring not beyond the descriptors in flight; it reaps the descriptors in
  ring order up to the reported index or up to the first \<open>ERROR_HALTED\<close>.
\<close>

lemma reap_loop:
  assumes "ring_inv k s" and "e AND mask (Suc k) = e"
    and "unat ((e - complete_index s) AND fifo_color_mask s) = d" and "d \<le> pending s"
  shows "\<exists>s' ret ts. eh_process_completions h s (complete_index s) e = Some (s', ret) \<and>
           ring_inv k s' \<and> length ts \<le> d \<and> pending s' + length ts = pending s \<and>
           in_flight_tokens s = ts @ in_flight_tokens s' \<and>
           delivered (trace s') = delivered (trace s) @ ts \<and>
           write_index s' = write_index s \<and>
           comp_thread_running s' = comp_thread_running s \<and>
           (ret \<noteq> 0 \<longrightarrow> ts \<noteq> [])"
  using assms
proof (induction d arbitrary: s)
  case 0
  from 0(1) have ok: "ring_ok k s" by (simp add: ring_inv_def)
  then have k: "k \<le> 15" and m: "fifo_color_mask s = mask (Suc k)"
    and c: "complete_index s AND mask (Suc k) = complete_index s"
    by (simp_all add: ring_ok_def)
  have "e = complete_index s" using distance_zero[OF k 0(2) c] 0(3) by (simp add: m)
  then have "eh_process_completions h s (complete_index s) e = Some (s, 0)"
    by (subst eh_process_completions.simps) simp
  then show ?case using 0(1) by force
next
  case (Suc d)
  from Suc(2) have ok: "ring_ok k s" by (simp add: ring_inv_def)
  then have k: "k \<le> 15" and m: "fifo_color_mask s = mask (Suc k)"
    by (simp_all add: ring_ok_def)
  have ne: "complete_index s \<noteq> e" using Suc(4) by auto
  have p: "0 < pending s" using Suc(5) by simp
  define s1 where "s1 = fst (eh_process_slot h s (complete_index s))"
  note st = reap_step[OF Suc(2) p, of h, folded s1_def]
  let ?tok = "priv (completions s ! ring_slot s 0)"
  show ?case
  proof (cases "snd (eh_process_slot h s (complete_index s)) \<noteq> 0")
    case True
    have "eh_process_completions h s (complete_index s) e =
          Some (s1, snd (eh_process_slot h s (complete_index s)))"
      using ne True by (subst eh_process_completions.simps) (simp add: s1_def)
    then show ?thesis using st p
      by (intro exI[of _ s1] exI[of _ "snd (eh_process_slot h s (complete_index s))"]
          exI[of _ "[?tok]"]) simp
  next
    case False
    have ci: "complete_index s1 = (complete_index s + 1) AND fifo_color_mask s1"
      using st(7) st(8) by simp
    have rec: "eh_process_completions h s (complete_index s) e =
          eh_process_completions h s1 (complete_index s1) e"
      using ne False ci by (subst eh_process_completions.simps) (simp add: s1_def)
    have d1: "unat ((e - complete_index s1) AND fifo_color_mask s1) = d"
      using distance_step[OF k, of e "complete_index s" d] Suc(4)
      by (simp add: st(7) st(8) m)
    have le1: "d \<le> pending s1" using Suc(5) st(2) by simp
    from Suc.IH[OF st(1) Suc(3) d1 le1]
    obtain s' ret ts where r: "eh_process_completions h s1 (complete_index s1) e = Some (s', ret)"
      "ring_inv k s'" "length ts \<le> d" "pending s' + length ts = pending s1"
      "in_flight_tokens s1 = ts @ in_flight_tokens s'"
      "delivered (trace s') = delivered (trace s1) @ ts"
      "write_index s' = write_index s1" "comp_thread_running s' = comp_thread_running s1"
      "ret \<noteq> 0 \<longrightarrow> ts \<noteq> []"
      by blast
    show ?thesis using r st p rec
      by (intro exI[of _ s'] exI[of _ ret] exI[of _ "?tok # ts"]) simp
  qed
qed

subsection \<open>The abort loop\<close>

lemma distance_step_mask:
  fixes e c :: "32 word"
  assumes b: "b \<le> 32" and d: "unat ((e - c) AND mask b) = Suc d"
  shows "unat ((e - ((c + 1) AND mask b)) AND mask b) = d"
proof -
  let ?M = "(2::int) ^ b"
  have sk: "b \<le> LENGTH(32)" using b by simp
  have a: "(uint e - uint c) mod ?M = int (Suc d)"
    using d uint_sub_mask[OF sk, of e c] by (metis uint_nat)
  have "uint ((e - ((c + 1) AND mask b)) AND mask b) =
        (uint e - uint ((c + 1) AND mask b)) mod ?M"
    by (rule uint_sub_mask[OF sk])
  also have "\<dots> = (uint e - (uint c + 1) mod ?M) mod ?M"
    using uint_add_mask[OF sk, of c 1] by simp
  also have "\<dots> = (uint e - (uint c + 1)) mod ?M" by (rule mod_diff_right_eq)
  also have "\<dots> = (uint e - uint c - 1) mod ?M" by (simp add: algebra_simps)
  also have "\<dots> = ((uint e - uint c) mod ?M - 1) mod ?M" by (rule mod_diff_left_eq[symmetric])
  also have "\<dots> = (int (Suc d) - 1) mod ?M" by (simp only: a)
  also have "\<dots> = int d mod ?M" by simp
  also have "\<dots> = int d"
  proof -
    have "int (Suc d) < ?M" using a by (metis pos_mod_bound zero_less_numeral zero_less_power)
    then have "0 \<le> int d" "int d < ?M" by linarith+
    then show ?thesis by (rule mod_pos_pos_trivial)
  qed
  finally show ?thesis by (metis nat_int unat_eq_nat_uint)
qed

lemma distance_zero_mask:
  fixes e c :: "32 word"
  assumes b: "b \<le> 32" and e: "e AND mask b = e" and c: "c AND mask b = c"
    and d: "unat ((e - c) AND mask b) = 0"
  shows "e = c"
proof -
  have sk: "b \<le> LENGTH(32)" using b by simp
  have "uint ((e - c) AND mask b) = int (unat ((e - c) AND mask b))"
    by (rule uint_nat)
  then have "uint ((e - c) AND mask b) = 0" by (simp only: d)
  then have "(uint e - uint c) mod 2 ^ b = 0" using uint_sub_mask[OF sk, of e c] by simp
  then show ?thesis by (rule word_eq_of_uint_mod[OF e c])
qed

lemma distance_less:
  fixes e c :: "32 word"
  shows "unat ((e - c) AND mask b) < 2 ^ b"
proof -
  have "uint ((e - c) AND mask b) < 2 ^ b" by (simp add: uint_and_mask)
  then have "int (unat ((e - c) AND mask b)) < 2 ^ b" by (simp only: uint_nat)
  then show ?thesis by (simp only: nat_less_pow2_int)
qed

lemma slot_shift:
  fixes i :: "32 word"
  assumes b: "b \<le> 32"
  shows "unat ((((i + 1) AND mask b) + of_nat j) AND mask b) =
         unat ((i + of_nat (Suc j)) AND mask b)"
proof -
  have sk: "b \<le> LENGTH(32)" using b by simp
  have "uint ((((i + 1) AND mask b) + of_nat j) AND mask b) =
        (uint ((i + 1) AND mask b) + int j) mod 2 ^ b"
    by (rule uint_of_nat_mask[OF sk])
  also have "\<dots> = ((uint i + 1) mod 2 ^ b + int j) mod 2 ^ b"
    using uint_add_mask[OF sk, of i 1] by simp
  also have "\<dots> = (uint i + 1 + int j) mod 2 ^ b" by (rule mod_add_left_eq)
  also have "\<dots> = (uint i + int (Suc j)) mod 2 ^ b" by (simp add: algebra_simps)
  also have "\<dots> = uint ((i + of_nat (Suc j)) AND mask b)"
    by (rule uint_of_nat_mask[OF sk, symmetric])
  finally show ?thesis by (metis unat_eq_nat_uint)
qed

lemma slot_differs:
  fixes i :: "32 word"
  assumes b: "b \<le> 32" and j: "Suc j < 2 ^ b"
  shows "unat ((i + of_nat (Suc j)) AND mask b) \<noteq> unat ((i + of_nat 0) AND mask b)"
proof
  assume eq: "unat ((i + of_nat (Suc j)) AND mask b) = unat ((i + of_nat 0) AND mask b)"
  have sk: "b \<le> LENGTH(32)" using b by simp
  have "uint ((i + of_nat (Suc j)) AND mask b) = uint ((i + of_nat 0) AND mask b)"
    using eq by (simp only: uint_nat)
  then have "(uint i + int (Suc j)) mod 2 ^ b = (uint i + int 0) mod 2 ^ b"
    by (simp only: uint_of_nat_mask[OF sk])
  then have "Suc j = 0" using j by (intro mod_pow2_inj[of "uint i" "Suc j" b 0]) simp_all
  then show False by simp
qed

lemma abort_slot_fields:
  "trace (eh_abort_slot s i) =
     trace s @ [Comp_callback EH_CDESC_ERROR_HALTED NULL 0 (priv (completions s ! unat i))]"
  "completions (eh_abort_slot s i) =
     (completions s)[unat i := (completions s ! unat i)\<lparr>priv := NULL\<rparr>]"
  "fifo_index_mask (eh_abort_slot s i) = fifo_index_mask s"
  "eh_abort_slot s i = s\<lparr>completions := completions (eh_abort_slot s i),
                          trace := trace (eh_abort_slot s i)\<rparr>"
  by (simp_all add: eh_abort_slot_def Let_def emit_def)

text \<open>
  The loop of \<^verbatim>\<open>eh_abort_incomplete_descriptors\<close> ends; it calls the callback for the
  slots from the start index up to the masked write index, in ring order, with the
  tokens the slots held before, and changes nothing but completion records and the
  trace.
\<close>

lemma abort_loop:
  assumes "fifo_index_mask s = mask b" and "b \<le> 32"
    and "i AND mask b = i" and "mw AND mask b = mw"
    and "unat ((mw - i) AND mask b) = n"
  shows "\<exists>s'. eh_abort_loop s i mw = Some s' \<and>
           trace s' = trace s @
             map (\<lambda>j. Comp_callback EH_CDESC_ERROR_HALTED NULL 0
                         (priv (completions s ! unat ((i + of_nat j) AND mask b)))) [0..<n] \<and>
           length (completions s') = length (completions s) \<and>
           s' = s\<lparr>completions := completions s', trace := trace s'\<rparr>"
  using assms
proof (induction n arbitrary: s i)
  case 0
  have "mw = i" using distance_zero_mask[OF 0(2) 0(4) 0(3) 0(5)] .
  then have "eh_abort_loop s i mw = Some s" by (subst eh_abort_loop.simps) simp
  then show ?case by simp
next
  case (Suc n)
  have ne: "i \<noteq> mw" using Suc(6) by auto
  define s1 where "s1 = eh_abort_slot s i"
  define i1 where "i1 = (i + 1) AND mask b"
  note f = abort_slot_fields[of s i, folded s1_def]
  have rec: "eh_abort_loop s i mw = eh_abort_loop s1 i1 mw"
    using ne by (subst eh_abort_loop.simps) (simp add: s1_def i1_def Suc(2))
  have m1: "fifo_index_mask s1 = mask b" using f(3) Suc(2) by simp
  have i1m: "i1 AND mask b = i1" by (simp add: i1_def)
  have d1: "unat ((mw - i1) AND mask b) = n"
    unfolding i1_def by (rule distance_step_mask[OF Suc(3) Suc(6)])
  from Suc.IH[OF m1 Suc(3) i1m Suc(5) d1]
  obtain s' where r: "eh_abort_loop s1 i1 mw = Some s'"
    "trace s' = trace s1 @
       map (\<lambda>j. Comp_callback EH_CDESC_ERROR_HALTED NULL 0
                   (priv (completions s1 ! unat ((i1 + of_nat j) AND mask b)))) [0..<n]"
    "length (completions s') = length (completions s1)"
    "s' = s1\<lparr>completions := completions s', trace := trace s'\<rparr>"
    by blast
  have lt: "Suc n < 2 ^ b" using distance_less[of mw i b] Suc(6) by simp
  have i0: "unat i = unat ((i + of_nat 0) AND mask b)" using Suc(4) by simp
  have tokens: "priv (completions s1 ! unat ((i1 + of_nat j) AND mask b)) =
                priv (completions s ! unat ((i + of_nat (Suc j)) AND mask b))"
    if "j < n" for j
  proof -
    have "Suc j < 2 ^ b" using that lt by simp
    then have "unat ((i + of_nat (Suc j)) AND mask b) \<noteq> unat i"
      using slot_differs[OF Suc(3), of j i] i0 by simp
    then show ?thesis
      unfolding i1_def slot_shift[OF Suc(3)] by (simp add: f(2))
  qed
  have "map (\<lambda>j. Comp_callback EH_CDESC_ERROR_HALTED NULL 0
                   (priv (completions s1 ! unat ((i1 + of_nat j) AND mask b)))) [0..<n] =
        map (\<lambda>j. Comp_callback EH_CDESC_ERROR_HALTED NULL 0
                   (priv (completions s ! unat ((i + of_nat (Suc j)) AND mask b)))) [0..<n]"
    using tokens by simp
  then have tr: "trace s' = trace s @
      map (\<lambda>j. Comp_callback EH_CDESC_ERROR_HALTED NULL 0
                  (priv (completions s ! unat ((i + of_nat j) AND mask b)))) [0..<Suc n]"
    using r(2) f(1) i0 by (simp add: map_upt_Suc del: upt_Suc)
  have len: "length (completions s') = length (completions s)" using r(3) f(2) by simp
  have fr: "s' = s\<lparr>completions := completions s', trace := trace s'\<rparr>"
    by (subst r(4), subst f(4)) simp
  show ?case using rec r(1) tr len fr by (intro exI[of _ s']) simp
qed

subsection \<open>What the operations leave alone\<close>

lemma ring_frame_refl [simp]: "ring_frame s s"
  by (simp add: ring_frame_def)

lemma ring_frame_trans: "ring_frame s s1 \<Longrightarrow> ring_frame s1 s2 \<Longrightarrow> ring_frame s s2"
  by (simp add: ring_frame_def)

lemma ring_frame_emit [simp]: "ring_frame s (emit evs s)"
  by (simp add: ring_frame_def emit_def)

lemma ring_frame_slot: "ring_frame s (fst (eh_process_slot h s i))"
  by (simp add: ring_frame_def eh_process_slot_def eh_process_completed_descriptor_def
      Let_def split_beta emit_def)

lemma ring_frame_abort_slot: "ring_frame s (eh_abort_slot s i)"
  by (simp add: ring_frame_def eh_abort_slot_def Let_def emit_def)

lemma running_slot:
  "comp_thread_running (fst (eh_process_slot h s i)) = comp_thread_running s"
  by (simp add: eh_process_slot_def eh_process_completed_descriptor_def
      Let_def split_beta emit_def)

lemma ring_frame_completions:
  assumes "eh_process_completions h s i e = Some r"
  shows "ring_frame s (fst r) \<and> comp_thread_running (fst r) = comp_thread_running s"
proof (rule eh_process_completions.raw_induct[where
      P="\<lambda>h s i e r. ring_frame s (fst r) \<and>
                       comp_thread_running (fst r) = comp_thread_running s", OF _ assms])
  fix loop h s i e r
  assume IH: "\<And>h s i e y. loop h s i e = Some y \<Longrightarrow>
                ring_frame s (fst y) \<and> comp_thread_running (fst y) = comp_thread_running s"
    and body: "(if i = e then Some (s, 0)
                else if snd (eh_process_slot h s i) \<noteq> 0 then Some (eh_process_slot h s i)
                else loop h (fst (eh_process_slot h s i))
                       ((i + 1) AND fifo_color_mask (fst (eh_process_slot h s i))) e) = Some r"
  show "ring_frame s (fst r) \<and> comp_thread_running (fst r) = comp_thread_running s"
  proof (cases "i = e")
    case True
    then show ?thesis using body by auto
  next
    case ne: False
    show ?thesis
    proof (cases "snd (eh_process_slot h s i) \<noteq> 0")
      case True
      then have "r = eh_process_slot h s i" using body ne by simp
      then show ?thesis by (simp add: ring_frame_slot running_slot)
    next
      case False
      then have "loop h (fst (eh_process_slot h s i))
                   ((i + 1) AND fifo_color_mask (fst (eh_process_slot h s i))) e = Some r"
        using body ne by simp
      from IH[OF this]
      have "ring_frame (fst (eh_process_slot h s i)) (fst r)"
        "comp_thread_running (fst r) = comp_thread_running s"
        by (simp_all add: running_slot)
      then show ?thesis using ring_frame_trans[OF ring_frame_slot] by blast
    qed
  qed
qed

lemma ring_frame_abort_loop:
  assumes "eh_abort_loop s i mw = Some s'"
  shows "ring_frame s s' \<and> comp_thread_running s' = comp_thread_running s"
proof (rule eh_abort_loop.raw_induct[where
      P="\<lambda>s i mw s'. ring_frame s s' \<and> comp_thread_running s' = comp_thread_running s",
      OF _ assms])
  fix loop s i mw s'
  assume IH: "\<And>s i mw y. loop s i mw = Some y \<Longrightarrow>
                ring_frame s y \<and> comp_thread_running y = comp_thread_running s"
    and body: "(if i = mw then Some s
                else loop (eh_abort_slot s i) ((i + 1) AND fifo_index_mask s) mw) = Some s'"
  show "ring_frame s s' \<and> comp_thread_running s' = comp_thread_running s"
  proof (cases "i = mw")
    case True
    then show ?thesis using body by auto
  next
    case False
    then have "loop (eh_abort_slot s i) ((i + 1) AND fifo_index_mask s) mw = Some s'"
      using body by simp
    from IH[OF this]
    have "ring_frame (eh_abort_slot s i) s'" "comp_thread_running s' = comp_thread_running s"
      by (simp_all add: eh_abort_slot_def Let_def emit_def)
    then show ?thesis using ring_frame_trans[OF ring_frame_abort_slot] by blast
  qed
qed

lemma ring_frame_update:
  assumes "eh_update_complete_index h s raw = Some r"
  shows "ring_frame s (fst r) \<and> comp_thread_running (fst r) = comp_thread_running s"
  using assms ring_frame_completions
  by (auto simp: eh_update_complete_index_def Let_def split: if_splits)

lemma ring_frame_pass:
  assumes "eh_comp_thread_pass h s raw error raw2 = Some s'"
  shows "ring_frame s s'"
proof -
  from assms obtain s1 ret where u: "eh_update_complete_index h s raw = Some (s1, ret)"
    by (auto simp: eh_comp_thread_pass_def split: if_splits option.splits)
  note f1 = ring_frame_update[OF u]
  show ?thesis
  proof (cases "ret \<noteq> 0 \<and> error \<noteq> 0")
    case True
    then obtain s2 where a: "eh_abort_incomplete_descriptors h (emit [Pr_err, Dump_regs] s1) raw2
        = Some s2" and s': "s' = s2\<lparr>comp_thread_running := False\<rparr>"
      using assms u by (auto simp: eh_comp_thread_pass_def split: if_splits option.splits)
    from a have "ring_frame (emit [Pr_err, Dump_regs] s1) s2"
      using ring_frame_abort_loop by (auto simp: eh_abort_incomplete_descriptors_def Let_def)
    then have "ring_frame s1 s2" by (simp add: ring_frame_def emit_def)
    then show ?thesis using f1 s' by (simp add: ring_frame_def)
  next
    case False
    then have "s' = s1 \<or> s' = emit [Warn] s1"
      using assms u by (auto simp: eh_comp_thread_pass_def split: if_splits option.splits)
    then show ?thesis using f1 by (auto simp: ring_frame_def emit_def)
  qed
qed

lemma callbacks_append [simp]: "callbacks (xs @ ys) = callbacks xs @ callbacks ys"
  by (simp add: callbacks_def)

lemma decompress_frame:
  assumes "eh_decompress_page h v s cpu a n page j0 reads = Some (s', rc)"
  shows "s' = s\<lparr>trace := trace s'\<rparr>" and "callbacks (trace s') = callbacks (trace s)"
    and "delivered (trace s') = delivered (trace s)"
  using assms
  by (auto simp: eh_decompress_page_def eh_setup_dcmd_def Let_def emit_def split_beta
      callbacks_def delivered_Cons
      split: if_splits option.splits sum.splits)

lemma suspend_frame:
  fixes h s ctrl
  defines "s' \<equiv> fst (eh_suspend h s ctrl)"
  shows "s' = s\<lparr>suspended := suspended s', trace := trace s'\<rparr>"
    and "callbacks (trace s') = callbacks (trace s)"
    and "delivered (trace s') = delivered (trace s)"
    and "suspended s' \<longrightarrow> suspended s \<or> nr_request s \<le> 0"
proof -
  have d: "delivered (map (\<lambda>i. Spin_lock (Decompr_lock i)) xs) = []"
    "delivered (map (\<lambda>i. Spin_unlock (Decompr_lock i)) xs) = []" for xs
    by (induction xs) (simp_all add: delivered_Cons)
  have c: "callbacks (map (\<lambda>i. Spin_lock (Decompr_lock i)) xs) = []"
    "callbacks (map (\<lambda>i. Spin_unlock (Decompr_lock i)) xs) = []" for xs
    by (induction xs) (simp_all add: callbacks_def)
  show "s' = s\<lparr>suspended := suspended s', trace := trace s'\<rparr>"
    "suspended s' \<longrightarrow> suspended s \<or> nr_request s \<le> 0"
    unfolding s'_def by (auto simp: eh_suspend_def Let_def emit_def)
  show "callbacks (trace s') = callbacks (trace s)"
    unfolding s'_def by (auto simp: eh_suspend_def Let_def emit_def c callbacks_def)
  show "delivered (trace s') = delivered (trace s)"
    unfolding s'_def by (auto simp: eh_suspend_def Let_def emit_def d delivered_Cons)
qed

lemma resume_frame:
  assumes "eh_resume h s pa reads = Some (s', rc)"
  shows "s' = s\<lparr>write_index := 0, complete_index := 0, suspended := False,
                 trace := trace s'\<rparr>"
    and "callbacks (trace s') = callbacks (trace s)"
    and "delivered (trace s') = delivered (trace s)"
  using assms
  by (auto simp: eh_resume_def eh_compr_fifo_init_def Let_def emit_def callbacks_def
      delivered_Cons split: if_splits option.splits)

lemma compress_frame:
  fixes s page p
  defines "s' \<equiv> (case eh_compress_page_try s page p of Inl r \<Rightarrow> fst r | Inr s' \<Rightarrow> s')"
  shows "ring_frame s (s'\<lparr>write_index := write_index s\<rparr>)"
    and "callbacks (trace s') = callbacks (trace s)"
    and "delivered (trace s') = delivered (trace s)"
    and "comp_thread_running s' = comp_thread_running s"
  unfolding s'_def
  by (auto simp: eh_compress_page_try_def Let_def emit_def eh_setup_descriptor_def
      ring_frame_def callbacks_def delivered_Cons)

subsection \<open>A pass of the completion thread\<close>

lemma in_flight_slots_eq:
  assumes "write_index s' = write_index s" "complete_index s' = complete_index s"
    "fifo_index_mask s' = fifo_index_mask s" "fifo_color_mask s' = fifo_color_mask s"
  shows "in_flight_slots s' = in_flight_slots s"
  using assms by (simp add: in_flight_slots_def pending_def ring_slot_def)

lemma in_flight_tokens_eq:
  assumes "write_index s' = write_index s" "complete_index s' = complete_index s"
    "fifo_index_mask s' = fifo_index_mask s" "fifo_color_mask s' = fifo_color_mask s"
    "completions s' = completions s"
  shows "in_flight_tokens s' = in_flight_tokens s"
  using in_flight_slots_eq[OF assms(1-4)] assms(5) by (simp add: in_flight_tokens_def)

lemma ring_inv_eq:
  assumes "fifo_size s' = fifo_size s" "fifo_index_mask s' = fifo_index_mask s"
    "fifo_color_mask s' = fifo_color_mask s" "write_index s' = write_index s"
    "complete_index s' = complete_index s" "fifo s' = fifo s"
    "length (completions s') = length (completions s)" "nr_request s' = nr_request s"
    "suspended s' = suspended s"
  shows "ring_inv k s' = ring_inv k s"
  using assms in_flight_slots_eq[OF assms(4) assms(5) assms(2) assms(3)]
  by (simp add: ring_inv_def ring_ok_def pending_def)

lemma masked_slot:
  assumes "ring_ok k s"
  shows "unat (((complete_index s AND mask k) + of_nat j) AND mask k) = ring_slot s j"
proof -
  from assms have k: "k \<le> 15" and m: "fifo_index_mask s = mask k" by (simp_all add: ring_ok_def)
  have sk: "k \<le> LENGTH(32)" using k by simp
  have "uint (((complete_index s AND mask k) + of_nat j) AND mask k) =
        (uint (complete_index s AND mask k) + int j) mod 2 ^ k"
    by (rule uint_of_nat_mask[OF sk])
  also have "\<dots> = (uint (complete_index s) mod 2 ^ k + int j) mod 2 ^ k"
    by (simp only: uint_and_mask)
  also have "\<dots> = (uint (complete_index s) + int j) mod 2 ^ k" by (rule mod_add_left_eq)
  also have "\<dots> = int (ring_slot s j)" by (rule ring_ok_ints(6)[OF assms, symmetric])
  finally show ?thesis by (metis nat_int unat_eq_nat_uint)
qed

lemma masked_distance:
  assumes "ring_ok k s" "pending s < 2 ^ k"
  shows "unat (((write_index s AND mask k) - (complete_index s AND mask k)) AND mask k) =
         pending s"
proof -
  from assms have k: "k \<le> 15" by (simp add: ring_ok_def)
  have sk: "k \<le> LENGTH(32)" using k by simp
  let ?W = "uint (write_index s)" and ?C = "uint (complete_index s)"
  have d: "(2::int) ^ k dvd 2 ^ Suc k" by simp
  have p: "0 \<le> int (pending s)" "int (pending s) < 2 ^ k"
  proof -
    show "0 \<le> int (pending s)" by simp
    show "int (pending s) < 2 ^ k" using assms(2) by (simp only: nat_less_pow2_int)
  qed
  have "uint (((write_index s AND mask k) - (complete_index s AND mask k)) AND mask k) =
        (uint (write_index s AND mask k) - uint (complete_index s AND mask k)) mod 2 ^ k"
    by (rule uint_sub_mask[OF sk])
  also have "\<dots> = (?W mod 2 ^ k - ?C mod 2 ^ k) mod 2 ^ k" by (simp only: uint_and_mask)
  also have "\<dots> = (?W - ?C) mod 2 ^ k" by (rule mod_diff_eq)
  also have "\<dots> = ((?W - ?C) mod 2 ^ Suc k) mod 2 ^ k"
    using d by (rule mod_mod_cancel[symmetric])
  also have "\<dots> = int (pending s) mod 2 ^ k" by (simp only: ring_ok_ints(5)[OF assms(1)])
  also have "\<dots> = int (pending s)" using p by (rule mod_pos_pos_trivial)
  finally show ?thesis by (metis nat_int unat_eq_nat_uint)
qed

lemma abort_eq:
  assumes k: "k \<le> 15" and m: "fifo_index_mask s = mask k"
  shows "eh_abort_incomplete_descriptors h s raw =
         eh_abort_loop s ((ucast (raw AND EH_CDESC_CTRL_COMPLETE_IDX_MASK h) :: 32 word) AND mask k)
           (write_index s AND mask k)"
  unfolding eh_abort_incomplete_descriptors_def Let_def m
  by (simp only: trunc16_mask[OF k] trunc64_mask[OF k])

lemma delivered_map_callback:
  "delivered (map (\<lambda>j. Comp_callback st d n (f j)) xs) = map f xs"
  by (induction xs) (simp_all add: delivered_Cons)

text \<open>
  The abort after a halt, started at \<open>complete_index\<close>: with fewer descriptors in
  flight than the ring has slots, the callbacks get the tokens in flight, in order.
\<close>

lemma abort_in_flight:
  assumes inv: "ring_inv k s" and p: "pending s < 2 ^ k"
    and r: "(ucast (raw AND EH_CDESC_CTRL_COMPLETE_IDX_MASK h) :: 32 word) = complete_index s"
  shows "\<exists>s'. eh_abort_incomplete_descriptors h s raw = Some s' \<and> ring_inv k s' \<and>
           delivered (trace s') = delivered (trace s) @ in_flight_tokens s \<and>
           comp_thread_running s' = comp_thread_running s"
proof -
  from inv have ok: "ring_ok k s" by (simp add: ring_inv_def)
  then have k: "k \<le> 15" and m: "fifo_index_mask s = mask k" by (simp_all add: ring_ok_def)
  have b: "k \<le> 32" using k by simp
  let ?i = "complete_index s AND mask k" and ?mw = "write_index s AND mask k"
  have im: "?i AND mask k = ?i" and mm: "?mw AND mask k = ?mw" by simp_all
  from abort_loop[OF m b im mm masked_distance[OF ok p]]
  obtain s' where s': "eh_abort_loop s ?i ?mw = Some s'"
    "trace s' = trace s @
       map (\<lambda>j. Comp_callback EH_CDESC_ERROR_HALTED NULL 0
                   (priv (completions s ! unat ((?i + of_nat j) AND mask k)))) [0..<pending s]"
    "length (completions s') = length (completions s)"
    "s' = s\<lparr>completions := completions s', trace := trace s'\<rparr>"
    by blast
  have a: "eh_abort_incomplete_descriptors h s raw = Some s'"
    using s'(1) by (simp add: abort_eq[OF k m] r)
  have tok: "map (\<lambda>j. priv (completions s ! unat ((?i + of_nat j) AND mask k))) [0..<pending s]
             = in_flight_tokens s"
    by (simp add: in_flight_tokens_def in_flight_slots_def masked_slot[OF ok] comp_def)
  have d: "delivered (trace s') = delivered (trace s) @ in_flight_tokens s"
    by (simp add: s'(2) delivered_map_callback tok)
  have f: "fifo_size s' = fifo_size s" "fifo_index_mask s' = fifo_index_mask s"
    "fifo_color_mask s' = fifo_color_mask s" "write_index s' = write_index s"
    "complete_index s' = complete_index s" "fifo s' = fifo s"
    "nr_request s' = nr_request s" "suspended s' = suspended s"
    "comp_thread_running s' = comp_thread_running s"
    by (subst s'(4), simp)+
  have "ring_inv k s'"
    using inv ring_inv_eq[OF f(1) f(2) f(3) f(4) f(5) f(6) s'(3) f(7) f(8)] by simp
  then show ?thesis using a d f(9) by blast
qed

lemma emit_simps [simp]:
  "ring_inv k (emit evs s) = ring_inv k s"
  "in_flight_tokens (emit evs s) = in_flight_tokens s"
  "pending (emit evs s) = pending s"
  "comp_thread_running (emit evs s) = comp_thread_running s"
  "complete_index (emit evs s) = complete_index s"
  "delivered (trace (emit evs s)) = delivered (trace s) @ delivered evs"
  by (simp_all add: emit_def ring_inv_def ring_ok_def pending_def in_flight_slots_def
      in_flight_tokens_def ring_slot_def)

lemma update_inv:
  assumes inv: "ring_inv k s" and prot: "device_protocol h s (Thread_pass raw error raw2)"
  shows "\<exists>s1 ret ts. eh_update_complete_index h s raw = Some (s1, ret) \<and> ring_inv k s1 \<and>
           pending s1 + length ts = pending s \<and>
           in_flight_tokens s = ts @ in_flight_tokens s1 \<and>
           delivered (trace s1) = delivered (trace s) @ ts \<and>
           comp_thread_running s1 = comp_thread_running s \<and> (ret \<noteq> 0 \<longrightarrow> ts \<noteq> [])"
proof -
  define e where "e = (ucast (raw AND EH_CDESC_CTRL_COMPLETE_IDX_MASK h) :: 32 word)"
  from inv have ok: "ring_ok k s" by (simp add: ring_inv_def)
  then have m: "fifo_color_mask s = mask (Suc k)" by (simp add: ring_ok_def)
  from prot have em: "e AND mask (Suc k) = e"
    and d: "unat ((e - complete_index s) AND fifo_color_mask s) \<le> pending s"
    by (simp_all add: device_protocol_def Let_def e_def m)
  show ?thesis
  proof (cases "e = complete_index s")
    case True
    then have "eh_update_complete_index h s raw = Some (s, 0)"
      by (simp add: eh_update_complete_index_def Let_def e_def)
    then show ?thesis using inv by (intro exI[of _ s] exI[of _ 0] exI[of _ "[]"]) simp
  next
    case False
    then have u: "eh_update_complete_index h s raw =
                  eh_process_completions h s (complete_index s) e"
      by (simp add: eh_update_complete_index_def Let_def e_def)
    from reap_loop[OF inv em refl d, of h] show ?thesis unfolding u by blast
  qed
qed

lemma thread_pass_inv:
  assumes inv: "ring_inv k s" and prot: "device_protocol h s (Thread_pass raw error raw2)"
    and pass: "eh_comp_thread_pass h s raw error raw2 = Some s'"
  shows "ring_inv k s'"
    and "\<exists>ts. delivered (trace s') = delivered (trace s) @ ts \<and>
           ((comp_thread_running s' = comp_thread_running s \<and>
             in_flight_tokens s = ts @ in_flight_tokens s') \<or>
            (\<not> comp_thread_running s' \<and> ts = in_flight_tokens s))"
proof -
  from update_inv[OF inv prot]
  obtain s1 ret ts where u: "eh_update_complete_index h s raw = Some (s1, ret)"
    and inv1: "ring_inv k s1" and p1: "pending s1 + length ts = pending s"
    and t1: "in_flight_tokens s = ts @ in_flight_tokens s1"
    and d1: "delivered (trace s1) = delivered (trace s) @ ts"
    and r1: "comp_thread_running s1 = comp_thread_running s"
    and ne: "ret \<noteq> 0 \<longrightarrow> ts \<noteq> []"
    by blast
  from pass have nr: "0 < nr_request s"
    by (auto simp: eh_comp_thread_pass_def split: if_splits)
  have both: "ring_inv k s' \<and>
        (\<exists>ts. delivered (trace s') = delivered (trace s) @ ts \<and>
           ((comp_thread_running s' = comp_thread_running s \<and>
             in_flight_tokens s = ts @ in_flight_tokens s') \<or>
            (\<not> comp_thread_running s' \<and> ts = in_flight_tokens s)))"
  proof (cases "ret \<noteq> 0")
    case False
    then have "s' = s1" using pass u nr by (simp add: eh_comp_thread_pass_def)
    then show ?thesis using inv1 t1 d1 r1 by blast
  next
    case True
    show ?thesis
    proof (cases "error = 0")
      case True
      then have s': "s' = emit [Warn] s1"
        using pass u nr \<open>ret \<noteq> 0\<close> by (simp add: eh_comp_thread_pass_def)
      have "delivered (trace s') = delivered (trace s) @ ts"
        by (simp add: s' d1 delivered_Cons)
      then show ?thesis using inv1 t1 r1 by (auto simp: s')
    next
      case err: False
      let ?sE = "emit [Pr_err, Dump_regs] s1"
      from inv have ple: "pending s \<le> 2 ^ k" by (simp add: ring_inv_def)
      have "ts \<noteq> []" using ne \<open>ret \<noteq> 0\<close> by simp
      then have plt: "pending ?sE < 2 ^ k" using p1 ple by (cases ts) simp_all
      have r2: "(ucast (raw2 AND EH_CDESC_CTRL_COMPLETE_IDX_MASK h) :: 32 word) =
                complete_index ?sE"
        using prot u \<open>ret \<noteq> 0\<close> by (simp add: device_protocol_def Let_def)
      have invE: "ring_inv k ?sE" using inv1 by simp
      from abort_in_flight[OF invE plt r2]
      obtain s2 where a: "eh_abort_incomplete_descriptors h ?sE raw2 = Some s2"
        and inv2: "ring_inv k s2"
        and d2: "delivered (trace s2) = delivered (trace ?sE) @ in_flight_tokens ?sE"
        by blast
      have s': "s' = s2\<lparr>comp_thread_running := False\<rparr>"
        using pass u nr \<open>ret \<noteq> 0\<close> err a by (simp add: eh_comp_thread_pass_def)
      have i': "ring_inv k s'"
        using inv2 ring_inv_eq[of s' s2 k] by (simp add: s')
      have "delivered (trace s') = delivered (trace s) @ ts @ in_flight_tokens s1"
        by (simp add: s' d2 d1 delivered_Cons)
      then show ?thesis using i' t1 by (auto simp: s')
    qed
  qed
  show "ring_inv k s'" using both by blast
  show "\<exists>ts. delivered (trace s') = delivered (trace s) @ ts \<and>
           ((comp_thread_running s' = comp_thread_running s \<and>
             in_flight_tokens s = ts @ in_flight_tokens s') \<or>
            (\<not> comp_thread_running s' \<and> ts = in_flight_tokens s))"
    using both by blast
qed

subsection \<open>Runs keep the ring consistent\<close>

lemma full_ring_not_suspended:
  assumes "ring_inv k s" "pending s = 2 ^ k"
  shows "\<not> suspended s"
  using assms by (auto simp: ring_inv_def)

lemma ring_inv_step:
  assumes inv: "ring_inv k s"
    and e: "fifo_size s' = fifo_size s" "fifo_index_mask s' = fifo_index_mask s"
      "fifo_color_mask s' = fifo_color_mask s" "write_index s' = write_index s"
      "complete_index s' = complete_index s"
    and l: "length (fifo s') = length (fifo s)"
      "length (completions s') = length (completions s)"
    and nr: "nr_request s' = nr_request s"
    and sus: "suspended s' \<longrightarrow> suspended s \<or> nr_request s \<le> 0"
    and st: "\<And>x. x \<notin> set (in_flight_slots s) \<Longrightarrow>
               desc_status (fifo s' ! x) = desc_status (fifo s ! x)"
  shows "ring_inv k s'"
proof -
  have p: "pending s' = pending s" by (rule pending_cong[OF e(4) e(5) e(3)])
  have slots: "in_flight_slots s' = in_flight_slots s"
    by (rule in_flight_slots_eq[OF e(4) e(5) e(2) e(3)])
  from inv have ok: "ring_ok k s" and ple: "pending s \<le> 2 ^ k"
    and nrq: "nr_request s = int (pending s)"
    and sp: "suspended s \<longrightarrow> pending s = 0"
    and idle: "\<And>i. i < 2 ^ k \<Longrightarrow> i \<notin> set (in_flight_slots s) \<Longrightarrow>
                 desc_status (fifo s ! i) = EH_CDESC_IDLE"
    by (simp_all add: ring_inv_def)
  have ok': "ring_ok k s'" using ok by (simp add: ring_ok_def e l)
  have sp': "suspended s' \<longrightarrow> pending s' = 0" using sus sp nrq by (auto simp: p)
  have idle': "desc_status (fifo s' ! i) = EH_CDESC_IDLE"
    if "i < 2 ^ k" "i \<notin> set (in_flight_slots s')" for i
    using that idle[of i] st[of i] by (simp add: slots)
  show ?thesis
    unfolding ring_inv_def using ok' ple nrq sp' idle' by (simp add: p nr)
qed

lemma compress_inv:
  fixes s1 page p
  defines "s \<equiv> (case eh_compress_page_try s1 page p of Inl r \<Rightarrow> fst r | Inr s' \<Rightarrow> s')"
  assumes inv: "ring_inv k s1"
  shows "ring_inv k s" and "delivered (trace s) = delivered (trace s1)"
    and "comp_thread_running s = comp_thread_running s1"
    and "in_flight_tokens s1 @ accepted s1 (Compress page p) = in_flight_tokens s"
proof -
  from inv have ok: "ring_ok k s1" and ple: "pending s1 \<le> 2 ^ k" by (simp_all add: ring_inv_def)
  have all: "ring_inv k s \<and> delivered (trace s) = delivered (trace s1) \<and>
        comp_thread_running s = comp_thread_running s1 \<and>
        in_flight_tokens s1 @ accepted s1 (Compress page p) = in_flight_tokens s"
  proof (cases "suspended s1")
    case True
    show ?thesis
      unfolding s_def using inv by (simp add: try_suspended[OF True] delivered_Cons EBUSY_def)
  next
    case ns: False
    show ?thesis
    proof (cases "eh_compress_page_try s1 page p")
      case (Inr s')
      show ?thesis
        unfolding s_def using inv try_Inr_fields(1)[OF Inr] by (simp add: Inr delivered_Cons)
    next
      case (Inl r)
      obtain s' rc where r: "r = (s', rc)" by (cases r)
      note f = try_Inl_fields[OF Inl[unfolded r] ns]
      have plt: "pending s1 < 2 ^ k"
        using f(13) full_test[OF ok ple] ple by simp
      note a = admit_inv[OF inv plt ns f(2) f(3) f(4) f(5) f(6) f(8) f(9) f(10) f(11)]
      have "delivered (trace s') = delivered (trace s1)" by (simp add: f(7) delivered_Cons)
      then show ?thesis
        unfolding s_def using a f(1) f(12) by (simp add: Inl r)
    qed
  qed
  show "ring_inv k s" "delivered (trace s) = delivered (trace s1)"
    "comp_thread_running s = comp_thread_running s1"
    "in_flight_tokens s1 @ accepted s1 (Compress page p) = in_flight_tokens s"
    using all by blast+
qed

lemma device_write_inv:
  assumes inv: "ring_inv k s" and i: "i \<in> set (in_flight_slots s)"
  shows "ring_inv k (device_writes i st len sel s)"
    and "in_flight_tokens (device_writes i st len sel s) = in_flight_tokens s"
proof -
  let ?s = "device_writes i st len sel s"
  have slots: "in_flight_slots ?s = in_flight_slots s"
    by (rule in_flight_slots_eq) (simp_all add: device_writes_def)
  show "in_flight_tokens ?s = in_flight_tokens s"
    by (rule in_flight_tokens_eq) (simp_all add: device_writes_def)
  have st: "desc_status (fifo ?s ! x) = desc_status (fifo s ! x)"
    if "x \<notin> set (in_flight_slots s)" for x
  proof -
    from that i have "x \<noteq> i" by blast
    then show ?thesis by (simp add: device_writes_def)
  qed
  show "ring_inv k ?s"
    by (rule ring_inv_step[OF inv _ _ _ _ _ _ _ _ _ st]) (simp_all add: device_writes_def)
qed

lemma no_request_empty:
  assumes "ring_inv k s" "suspended s \<or> nr_request s \<le> 0"
  shows "pending s = 0" and "in_flight_tokens s = []"
proof -
  show "pending s = 0" using assms by (auto simp: ring_inv_def)
  then show "in_flight_tokens s = []" by (simp add: in_flight_tokens_def in_flight_slots_def)
qed

lemma suspend_inv:
  fixes h s1 ctrl
  defines "s \<equiv> fst (eh_suspend h s1 ctrl)"
  assumes inv: "ring_inv k s1"
  shows "ring_inv k s" and "in_flight_tokens s = in_flight_tokens s1"
    and "comp_thread_running s = comp_thread_running s1"
proof -
  note f = suspend_frame[of h s1 ctrl, folded s_def]
  have e: "fifo_size s = fifo_size s1" "fifo_index_mask s = fifo_index_mask s1"
    "fifo_color_mask s = fifo_color_mask s1" "write_index s = write_index s1"
    "complete_index s = complete_index s1" "fifo s = fifo s1"
    "completions s = completions s1" "nr_request s = nr_request s1"
    "comp_thread_running s = comp_thread_running s1"
    by (subst f(1), simp)+
  show "in_flight_tokens s = in_flight_tokens s1"
    by (rule in_flight_tokens_eq) (simp_all add: e)
  show "comp_thread_running s = comp_thread_running s1" by (rule e(9))
  show "ring_inv k s"
    by (rule ring_inv_step[OF inv e(1) e(2) e(3) e(4) e(5) _ _ e(8) f(4)]) (simp_all add: e)
qed

lemma resume_inv:
  assumes inv: "ring_inv k s1" and sus: "suspended s1"
    and r: "eh_resume h s1 pa reads = Some (s, rc)"
  shows "ring_inv k s" and "in_flight_tokens s = in_flight_tokens s1"
    and "comp_thread_running s = comp_thread_running s1"
    and "delivered (trace s) = delivered (trace s1)"
proof -
  note f = resume_frame[OF r]
  have e: "fifo_size s = fifo_size s1" "fifo_index_mask s = fifo_index_mask s1"
    "fifo_color_mask s = fifo_color_mask s1" "write_index s = 0"
    "complete_index s = 0" "fifo s = fifo s1"
    "completions s = completions s1" "nr_request s = nr_request s1"
    "comp_thread_running s = comp_thread_running s1" "suspended s = False"
    by (subst f(1), simp)+
  note emp = no_request_empty[OF inv disjI1[OF sus]]
  have p: "pending s = 0" by (simp add: pending_def e)
  then have slots: "in_flight_slots s = []" "in_flight_slots s1 = []"
    using emp(1) by (simp_all add: in_flight_slots_def)
  show "in_flight_tokens s = in_flight_tokens s1"
    using emp(2) slots by (simp add: in_flight_tokens_def)
  show "comp_thread_running s = comp_thread_running s1" by (rule e(9))
  show "delivered (trace s) = delivered (trace s1)" by (rule f(3))
  from inv have ok: "ring_ok k s1" and nrq: "nr_request s1 = int (pending s1)"
    and idle: "\<And>i. i < 2 ^ k \<Longrightarrow> i \<notin> set (in_flight_slots s1) \<Longrightarrow>
                 desc_status (fifo s1 ! i) = EH_CDESC_IDLE"
    by (simp_all add: ring_inv_def)
  have ok': "ring_ok k s" using ok by (simp add: ring_ok_def e)
  have idle': "desc_status (fifo s ! i) = EH_CDESC_IDLE" if "i < 2 ^ k" for i
    using idle[OF that] slots by (simp add: e)
  show "ring_inv k s"
    unfolding ring_inv_def using ok' nrq emp(1) idle' by (simp add: p e)
qed

text \<open>One operation, allowed by the protocol, from a consistent ring.\<close>

lemma step_inv:
  assumes inv: "ring_inv k s1" and prot: "device_protocol h s1 op"
    and ap: "eh_apply h v s1 op = Some s"
  shows "ring_inv k s"
    and "\<exists>ts. delivered (trace s) = delivered (trace s1) @ ts \<and>
           (ts = [] \<or> comp_thread_running s1) \<and>
           ((comp_thread_running s = comp_thread_running s1 \<and>
             in_flight_tokens s1 @ accepted s1 op = ts @ in_flight_tokens s) \<or>
            (\<not> comp_thread_running s \<and> ts = in_flight_tokens s1 \<and> accepted s1 op = []))"
proof -
  have both: "ring_inv k s \<and>
     (\<exists>ts. delivered (trace s) = delivered (trace s1) @ ts \<and>
           (ts = [] \<or> comp_thread_running s1) \<and>
           ((comp_thread_running s = comp_thread_running s1 \<and>
             in_flight_tokens s1 @ accepted s1 op = ts @ in_flight_tokens s) \<or>
            (\<not> comp_thread_running s \<and> ts = in_flight_tokens s1 \<and> accepted s1 op = [])))"
  proof (cases op)
    case (Compress page p)
    from ap have s: "s = (case eh_compress_page_try s1 page p of Inl r \<Rightarrow> fst r | Inr s' \<Rightarrow> s')"
      by (simp add: Compress)
    note c = compress_inv[OF inv, of page p, folded s]
    show ?thesis using c by (intro conjI exI[of _ "[]"]) (simp_all add: Compress)
  next
    case (Device_write i st len sel)
    from ap have s: "s = device_writes i st len sel s1" by (simp add: Device_write)
    from prot have i: "i \<in> set (in_flight_slots s1)"
      by (simp add: device_protocol_def Device_write)
    note d = device_write_inv[OF inv i, of st len sel, folded s]
    have "delivered (trace s) = delivered (trace s1)"
      "comp_thread_running s = comp_thread_running s1"
      by (simp_all add: s device_writes_def)
    then show ?thesis using d by (intro conjI exI[of _ "[]"]) (simp_all add: Device_write)
  next
    case (Thread_pass raw error raw2)
    from ap have run: "comp_thread_running s1"
      and pass: "eh_comp_thread_pass h s1 raw error raw2 = Some s"
      by (simp_all add: Thread_pass split: if_splits)
    note t = thread_pass_inv[OF inv prot[unfolded Thread_pass] pass]
    from t(2) obtain ts where ts: "delivered (trace s) = delivered (trace s1) @ ts"
      "(comp_thread_running s = comp_thread_running s1 \<and>
         in_flight_tokens s1 = ts @ in_flight_tokens s) \<or>
       (\<not> comp_thread_running s \<and> ts = in_flight_tokens s1)"
      by blast
    show ?thesis using t(1) ts run by (intro conjI exI[of _ ts]) (auto simp: Thread_pass)
  next
    case (Decompress cpu a n page j0 reads)
    from ap obtain rc where d: "eh_decompress_page h v s1 cpu a n page j0 reads = Some (s, rc)"
      by (auto simp: Decompress)
    note f = decompress_frame[OF d]
    have e: "fifo_size s = fifo_size s1" "fifo_index_mask s = fifo_index_mask s1"
      "fifo_color_mask s = fifo_color_mask s1" "write_index s = write_index s1"
      "complete_index s = complete_index s1" "fifo s = fifo s1"
      "completions s = completions s1" "nr_request s = nr_request s1"
      "suspended s = suspended s1" "comp_thread_running s = comp_thread_running s1"
      by (subst f(1), simp)+
    have i: "ring_inv k s"
      using inv ring_inv_eq[OF e(1) e(2) e(3) e(4) e(5) e(6) _ e(8) e(9), of k] by (simp add: e(7))
    have t: "in_flight_tokens s = in_flight_tokens s1"
      by (rule in_flight_tokens_eq) (simp_all add: e)
    show ?thesis using i t f(3) e(10) by (intro conjI exI[of _ "[]"]) (simp_all add: Decompress)
  next
    case (Suspend ctrl)
    from ap have s: "s = fst (eh_suspend h s1 ctrl)" by (simp add: Suspend)
    note si = suspend_inv[OF inv, of h ctrl, folded s]
    note f = suspend_frame[of h s1 ctrl, folded s]
    show ?thesis using si f(3) by (intro conjI exI[of _ "[]"]) (simp_all add: Suspend)
  next
    case (Resume pa reads)
    from ap obtain rc where r: "eh_resume h s1 pa reads = Some (s, rc)"
      by (auto simp: Resume)
    from prot have sus: "suspended s1" by (simp add: device_protocol_def Resume)
    note ri = resume_inv[OF inv sus r]
    show ?thesis using ri by (intro conjI exI[of _ "[]"]) (simp_all add: Resume)
  qed
  show "ring_inv k s" using both by blast
  show "\<exists>ts. delivered (trace s) = delivered (trace s1) @ ts \<and>
           (ts = [] \<or> comp_thread_running s1) \<and>
           ((comp_thread_running s = comp_thread_running s1 \<and>
             in_flight_tokens s1 @ accepted s1 op = ts @ in_flight_tokens s) \<or>
            (\<not> comp_thread_running s \<and> ts = in_flight_tokens s1 \<and> accepted s1 op = []))"
    using both by blast
qed

lemma eh_run_snoc:
  "eh_run h v P s (ops @ [op]) =
     (case eh_run h v P s ops of
        None \<Rightarrow> None
      | Some s1 \<Rightarrow> if P s1 op then eh_apply h v s1 op else None)"
  by (induction ops arbitrary: s) (auto split: option.splits)

lemma submitted_snoc:
  "eh_run h v P s ops = Some s1 \<Longrightarrow>
   submitted h v s (ops @ [op]) = submitted h v s ops @ accepted s1 op"
proof (induction ops arbitrary: s)
  case Nil
  then show ?case by (simp split: option.splits)
next
  case (Cons a ops)
  then show ?case by (auto split: option.splits if_splits)
qed

text \<open>
  Along a run that keeps to the protocol, from a consistent ring, the ring stays
  consistent, and the tokens delivered so far, followed by those still owed, are the
  tokens that were in flight at the start followed by those accepted since.
\<close>

lemma run_inv:
  assumes "ring_inv k s0" and "eh_run h v (device_protocol h) s0 ops = Some s"
  shows "ring_inv k s \<and>
         (\<exists>rest. delivered (trace s0) @ in_flight_tokens s0 @ submitted h v s0 ops =
                    delivered (trace s) @ rest \<and>
                 (comp_thread_running s \<longrightarrow> rest = in_flight_tokens s) \<and>
                 ((\<exists>ops' raw error raw2. ops = ops' @ [Thread_pass raw error raw2]) \<and>
                  \<not> comp_thread_running s \<longrightarrow> rest = []))"
  using assms(2)
proof (induction ops arbitrary: s rule: rev_induct)
  case Nil
  then show ?case using assms(1) by simp
next
  case (snoc op ops)
  from snoc(2) obtain s1 where s1: "eh_run h v (device_protocol h) s0 ops = Some s1"
    and prot: "device_protocol h s1 op" and ap: "eh_apply h v s1 op = Some s"
    by (auto simp: eh_run_snoc split: option.splits if_splits)
  from snoc(1)[OF s1] obtain rest where inv1: "ring_inv k s1"
    and eq: "delivered (trace s0) @ in_flight_tokens s0 @ submitted h v s0 ops =
               delivered (trace s1) @ rest"
    and run1: "comp_thread_running s1 \<longrightarrow> rest = in_flight_tokens s1"
    by blast
  note st = step_inv[OF inv1 prot ap]
  from st(2) obtain ts where d: "delivered (trace s) = delivered (trace s1) @ ts"
    and tr: "ts = [] \<or> comp_thread_running s1"
    and alt: "(comp_thread_running s = comp_thread_running s1 \<and>
               in_flight_tokens s1 @ accepted s1 op = ts @ in_flight_tokens s) \<or>
              (\<not> comp_thread_running s \<and> ts = in_flight_tokens s1 \<and> accepted s1 op = [])"
    by blast
  have sub: "submitted h v s0 (ops @ [op]) = submitted h v s0 ops @ accepted s1 op"
    by (rule submitted_snoc[OF s1])
  have total: "delivered (trace s0) @ in_flight_tokens s0 @ submitted h v s0 (ops @ [op]) =
               delivered (trace s1) @ rest @ accepted s1 op"
    using eq by (simp add: sub)
  have thread: "comp_thread_running s1"
    if "ops @ [op] = ops' @ [Thread_pass raw error raw2]" for ops' raw error raw2
  proof -
    from that have "op = Thread_pass raw error raw2" by simp
    then show ?thesis using ap by (simp split: if_splits)
  qed
  have "\<exists>rest'. delivered (trace s1) @ rest @ accepted s1 op = delivered (trace s) @ rest' \<and>
          (comp_thread_running s \<longrightarrow> rest' = in_flight_tokens s) \<and>
          (comp_thread_running s1 \<and> \<not> comp_thread_running s \<longrightarrow> rest' = [])"
  proof (cases "comp_thread_running s1")
    case True
    then have r: "rest = in_flight_tokens s1" using run1 by simp
    from alt show ?thesis
    proof
      assume a: "comp_thread_running s = comp_thread_running s1 \<and>
                 in_flight_tokens s1 @ accepted s1 op = ts @ in_flight_tokens s"
      then show ?thesis using d r True by (intro exI[of _ "in_flight_tokens s"]) simp
    next
      assume a: "\<not> comp_thread_running s \<and> ts = in_flight_tokens s1 \<and> accepted s1 op = []"
      then show ?thesis using d r by (intro exI[of _ "[]"]) simp
    qed
  next
    case False
    then have ts: "ts = []" using tr by simp
    from alt False have "\<not> comp_thread_running s" by auto
    then show ?thesis using d ts False by (intro exI[of _ "rest @ accepted s1 op"]) simp
  qed
  then obtain rest' where
    r: "delivered (trace s1) @ rest @ accepted s1 op = delivered (trace s) @ rest'"
      "comp_thread_running s \<longrightarrow> rest' = in_flight_tokens s"
      "comp_thread_running s1 \<and> \<not> comp_thread_running s \<longrightarrow> rest' = []"
    by blast
  have last: "(\<exists>ops' raw error raw2. ops @ [op] = ops' @ [Thread_pass raw error raw2]) \<and>
        \<not> comp_thread_running s \<longrightarrow> rest' = []"
    using thread r(3) by blast
  show ?case using st(1) total r(1) r(2) last by (intro conjI exI[of _ rest']) simp_all
qed

subsection \<open>The state after initialisation\<close>

lemma ucast_pow2_16_32: "k \<le> 15 \<Longrightarrow> (ucast (2 ^ k :: 16 word) :: 32 word) = 2 ^ k"
  by (intro bit_word_eqI) (auto simp: bit_simps)

lemma init_inv:
  assumes init: "eh_init h (eh_dev_kzalloc n) (2 ^ k) env = Some (Inr s0)"
    and k: "1 \<le> k" "k \<le> 15"
  shows "ring_inv k s0" and "delivered (trace s0) = []" and "in_flight_tokens s0 = []"
    and "comp_thread_running s0"
proof -
  have u: "unat (2 ^ k :: 16 word) = 2 ^ k" using k by (simp add: unat_pow2)
  have c: "(ucast (2 ^ k :: 16 word) :: 32 word) = 2 ^ k" by (rule ucast_pow2_16_32[OF k(2)])
  have m1: "(2 ^ k :: 32 word) - 1 = mask k" by (simp add: mask_eq_exp_minus_1)
  have m2: "push_bit 1 (2 ^ k :: 32 word) - 1 = mask (Suc k)"
    by (simp add: mask_eq_exp_minus_1 push_bit_eq_mult)
  have m3: "(2 ^ k :: 32 word) * 2 - 1 = mask (Suc k)"
    by (simp add: mask_eq_exp_minus_1)
  have f: "fifo_size s0 = 2 ^ k" "fifo_index_mask s0 = mask k"
    "fifo_color_mask s0 = mask (Suc k)" "write_index s0 = 0" "complete_index s0 = 0"
    "fifo s0 = replicate (2 ^ k) \<lparr>desc_src_addr = 0, desc_status = EH_CDESC_IDLE,
                                     desc_compr_len = 0, desc_buf_sel = 0\<rparr>"
    "completions s0 = replicate (2 ^ k) \<lparr>priv = NULL\<rparr>"
    "nr_request s0 = 0" "suspended s0 = False" "comp_thread_running s0"
    "delivered (trace s0) = []"
    using init
    by (auto simp: eh_init_def eh_hw_init_def eh_init_compression_def eh_init_decompression_def
        eh_sw_init_def Let_def u c m1 m2 m3 eh_dev_kzalloc_def eh_compr_fifo_init_def eh_reset_def
        emit_def delivered_Cons
        split: if_splits option.splits sum.splits)
  have p: "pending s0 = 0" by (simp add: pending_def f)
  show "delivered (trace s0) = []" "comp_thread_running s0" by (rule f)+
  show "in_flight_tokens s0 = []" by (simp add: in_flight_tokens_def in_flight_slots_def p)
  show "ring_inv k s0"
    using k by (simp add: ring_inv_def ring_ok_def f p in_flight_slots_def)
qed

subsection \<open>The ring invariant\<close>

lemma ring_inv_full_and_admit:
  assumes inv: "ring_inv k s"
  shows "pending s \<le> unat (fifo_size s)"
    and "pending s = unat (fifo_size s) \<Longrightarrow>
           eh_compress_page_try s page p =
             Inr (emit [Spin_lock Fifo_prod_lock, Spin_unlock Fifo_prod_lock,
                        Congestion_wait] s)"
    and "eh_compress_page_try s page p = Inl (s', 0) \<Longrightarrow>
           desc_status (fifo s ! unat (write_index s AND fifo_index_mask s)) = EH_CDESC_IDLE"
proof -
  from inv have ok: "ring_ok k s" and ple: "pending s \<le> 2 ^ k" by (simp_all add: ring_inv_def)
  then have k: "k \<le> 15" and n: "fifo_size s = 2 ^ k" by (simp_all add: ring_ok_def)
  have u: "unat (fifo_size s) = 2 ^ k" using k by (simp add: n unat_pow2)
  show "pending s \<le> unat (fifo_size s)" using ple by (simp add: u)
  show "eh_compress_page_try s page p =
             Inr (emit [Spin_lock Fifo_prod_lock, Spin_unlock Fifo_prod_lock,
                        Congestion_wait] s)"
    if "pending s = unat (fifo_size s)"
  proof -
    from that have full: "pending s = 2 ^ k" by (simp add: u)
    have ns: "\<not> suspended s" by (rule full_ring_not_suspended[OF inv full])
    show ?thesis
      using ns full_test[OF ok ple] full
      by (simp add: eh_compress_page_try_def Let_def emit_def)
  qed
  show "desc_status (fifo s ! unat (write_index s AND fifo_index_mask s)) = EH_CDESC_IDLE"
    if "eh_compress_page_try s page p = Inl (s', 0)"
  proof -
    have ns: "\<not> suspended s"
    proof
      assume "suspended s"
      from try_suspended[OF this, of page p] that show False by (simp add: EBUSY_def)
    qed
    note f = try_Inl_fields[OF that ns]
    have plt: "pending s < 2 ^ k" using f(13) full_test[OF ok ple] ple by simp
    show ?thesis
      by (rule admit_inv(4)[OF inv plt ns f(2) f(3) f(4) f(5) f(6) f(8) f(9) f(10) f(11)])
  qed
qed

lemma default_fifo_size_pow2: "eh_default_fifo_size = 2 ^ 8"
  by (simp add: eh_default_fifo_size_def)

text \<open>
  C1.  In every state that the driver reaches from its initialisation by passes of
  \<^verbatim>\<open>eh_compress_page\<close>, passes of the completion thread and the other operations,
  with a device that keeps to the protocol, the number of descriptors in flight is
  at most the ring size.  When it equals the ring size, a pass of
  \<^verbatim>\<open>eh_compress_page\<close> releases the lock and goes to the congestion wait, and the
  call does not return while nothing else happens.  A pass that admits a request
  writes a descriptor that was \<open>IDLE\<close>, never one that is still \<open>PENDING\<close>.
\<close>

theorem pending_within_ring_size:
  assumes "eh_init h (eh_dev_kzalloc n) eh_default_fifo_size env = Some (Inr s0)"
    and "eh_run h v (device_protocol h) s0 ops = Some s"
  shows "pending s \<le> unat (fifo_size s) \<and>
         (pending s = unat (fifo_size s) \<longrightarrow>
            eh_compress_page_try s page p =
              Inr (emit [Spin_lock Fifo_prod_lock, Spin_unlock Fifo_prod_lock,
                         Congestion_wait] s) \<and>
            eh_compress_page s [] page p = None) \<and>
         (\<forall>s'. eh_compress_page_try s page p = Inl (s', 0) \<longrightarrow>
            desc_status (fifo s ! unat (write_index s AND fifo_index_mask s)) =
              EH_CDESC_IDLE)"
proof -
  have inv0: "ring_inv 8 s0"
    by (rule init_inv(1)[OF assms(1)[unfolded default_fifo_size_pow2]]) simp_all
  have inv: "ring_inv 8 s" using run_inv[OF inv0 assms(2)] by blast
  note c = ring_inv_full_and_admit[OF inv]
  have "eh_compress_page s [] page p = None" if "pending s = unat (fifo_size s)"
    using c(2)[OF that, of page p] by simp
  then show ?thesis using c by blast
qed

theorem pending_within_ring_size_witness:
  "eh_init example_hdr (eh_dev_kzalloc 2) eh_default_fifo_size probe_env =
     Some (Inr probe_dev) \<and>
   eh_run example_hdr (\<lambda>a. a) (device_protocol example_hdr) probe_dev
     [Compress 4096 11, Compress 8192 22, Device_write 0 EH_CDESC_COMPRESSED 700 1,
      Thread_pass 1 0 0] =
     Some (the (eh_run example_hdr (\<lambda>a. a) (device_protocol example_hdr) probe_dev
       [Compress 4096 11, Compress 8192 22, Device_write 0 EH_CDESC_COMPRESSED 700 1,
        Thread_pass 1 0 0])) \<and>
   pending (the (eh_run example_hdr (\<lambda>a. a) (device_protocol example_hdr) probe_dev
       [Compress 4096 11, Compress 8192 22, Device_write 0 EH_CDESC_COMPRESSED 700 1,
        Thread_pass 1 0 0])) \<le>
   unat (fifo_size (the (eh_run example_hdr (\<lambda>a. a) (device_protocol example_hdr) probe_dev
       [Compress 4096 11, Compress 8192 22, Device_write 0 EH_CDESC_COMPRESSED 700 1,
        Thread_pass 1 0 0])))"
proof -
  have a: "eh_init example_hdr (eh_dev_kzalloc 2) eh_default_fifo_size probe_env =
     Some (Inr probe_dev)"
    by code_simp
  have b: "eh_run example_hdr (\<lambda>a. a) (device_protocol example_hdr) probe_dev
     [Compress 4096 11, Compress 8192 22, Device_write 0 EH_CDESC_COMPRESSED 700 1,
      Thread_pass 1 0 0] =
     Some (the (eh_run example_hdr (\<lambda>a. a) (device_protocol example_hdr) probe_dev
       [Compress 4096 11, Compress 8192 22, Device_write 0 EH_CDESC_COMPRESSED 700 1,
        Thread_pass 1 0 0]))"
    by code_simp
  show ?thesis using pending_within_ring_size[OF a b] a b by blast
qed

subsection \<open>After the thread has ended\<close>

lemma apply_halted:
  assumes "\<not> comp_thread_running s" and "eh_apply h v s op = Some s'"
  shows "\<not> comp_thread_running s' \<and> callbacks (trace s') = callbacks (trace s)"
proof (cases op)
  case (Compress page p)
  then have s': "s' = (case eh_compress_page_try s page p of Inl r \<Rightarrow> fst r | Inr s' \<Rightarrow> s')"
    using assms(2) by simp
  show ?thesis
    using compress_frame(2,4)[of s page p, folded s'] assms(1) by simp
next
  case (Device_write i st len sel)
  then show ?thesis using assms by (auto simp: device_writes_def)
next
  case (Thread_pass raw error raw2)
  then show ?thesis using assms by simp
next
  case (Decompress cpu a len page j0 reads)
  then obtain rc where "eh_decompress_page h v s cpu a len page j0 reads = Some (s', rc)"
    using assms(2) by auto
  note f = decompress_frame[OF this]
  have "comp_thread_running s' = comp_thread_running s" by (subst f(1), simp)
  then show ?thesis using f(2) assms(1) by simp
next
  case (Suspend ctrl)
  then have s': "s' = fst (eh_suspend h s ctrl)" using assms(2) by simp
  note f = suspend_frame[of h s ctrl, folded s']
  have "comp_thread_running s' = comp_thread_running s" by (subst f(1), simp)
  then show ?thesis using f(2) assms(1) by simp
next
  case (Resume pa reads)
  then obtain rc where r: "eh_resume h s pa reads = Some (s', rc)" using assms(2) by auto
  note f = resume_frame[OF r]
  have "comp_thread_running s' = comp_thread_running s" by (subst f(1), simp)
  then show ?thesis using f(2) assms(1) by simp
qed

lemma run_halted:
  assumes "\<not> comp_thread_running s" and "eh_run h v P s ops = Some s'"
  shows "\<not> comp_thread_running s' \<and> callbacks (trace s') = callbacks (trace s)"
  using assms
proof (induction ops arbitrary: s)
  case Nil
  then show ?case by simp
next
  case (Cons op ops)
  from Cons(3) obtain s1 where a: "eh_apply h v s op = Some s1"
    and r: "eh_run h v P s1 ops = Some s'"
    by (auto split: if_splits option.splits)
  from apply_halted[OF Cons(2) a] Cons(1)[OF _ r] show ?case by simp
qed

subsection \<open>Order of the completions\<close>












text \<open>
  The abort starts at the completion index that the device reports then, not at
  \<open>complete_index\<close>.  With four requests in flight and a halt on the third: when the
  device reports the index 4, the fourth request gets no completion at all; when it
  reports the index 2, the third slot gets a second completion, with a \<open>NULL\<close> token.
\<close>

lemma abort_starts_at_device_index:
  "map_option (\<lambda>s. (delivered (trace s), in_flight_tokens s))
     (eh_comp_thread_pass example_hdr halted_at_two 3 1 4) = Some ([11, 22, 33], [44]) \<and>
   map_option (\<lambda>s. callbacks (trace s))
     (eh_comp_thread_pass example_hdr halted_at_two 3 1 2) =
     Some [Comp_callback EH_CDESC_COMPRESSED 4096 700 11,
           Comp_callback EH_CDESC_COMPRESSED 8192 900 22,
           Comp_callback EH_CDESC_ERROR_HALTED NULL 0 33,
           Comp_callback EH_CDESC_ERROR_HALTED NULL 0 NULL,
           Comp_callback EH_CDESC_ERROR_HALTED NULL 0 44]"
  by code_simp

subsection \<open>The busy flags of the decompression slots\<close>

lemma apply_keeps_slots:
  assumes "eh_apply h v s op = Some s'"
  shows "decompr_busy s' = decompr_busy s \<and> decompr_cmd_count s' = decompr_cmd_count s"
proof (cases op)
  case (Compress page p)
  then have s': "s' = (case eh_compress_page_try s page p of Inl r \<Rightarrow> fst r | Inr s' \<Rightarrow> s')"
    using assms by simp
  show ?thesis using compress_frame(1)[of s page p, folded s'] by (simp add: ring_frame_def)
next
  case (Device_write i st len sel)
  then show ?thesis using assms by (auto simp: device_writes_def)
next
  case (Thread_pass raw error raw2)
  then have "eh_comp_thread_pass h s raw error raw2 = Some s'"
    using assms by (simp split: if_splits)
  from ring_frame_pass[OF this] show ?thesis by (simp add: ring_frame_def)
next
  case (Decompress cpu a len page j0 reads)
  then obtain rc where "eh_decompress_page h v s cpu a len page j0 reads = Some (s', rc)"
    using assms by auto
  note f = decompress_frame(1)[OF this]
  have "decompr_busy s' = decompr_busy s" "decompr_cmd_count s' = decompr_cmd_count s"
    by (subst f, simp)+
  then show ?thesis by simp
next
  case (Suspend ctrl)
  then have s': "s' = fst (eh_suspend h s ctrl)" using assms by simp
  have "decompr_busy s' = decompr_busy s" "decompr_cmd_count s' = decompr_cmd_count s"
    by (subst suspend_frame(1)[of h s ctrl, folded s'], simp)+
  then show ?thesis by simp
next
  case (Resume pa reads)
  then obtain rc where r: "eh_resume h s pa reads = Some (s', rc)" using assms by auto
  have "decompr_busy s' = decompr_busy s" "decompr_cmd_count s' = decompr_cmd_count s"
    by (subst resume_frame(1)[OF r], simp)+
  then show ?thesis by simp
qed

lemma run_keeps_slots:
  assumes "eh_run h v P s ops = Some s'"
  shows "decompr_busy s' = decompr_busy s \<and> decompr_cmd_count s' = decompr_cmd_count s"
  using assms
proof (induction ops arbitrary: s)
  case Nil
  then show ?case by simp
next
  case (Cons op ops)
  from Cons(2) obtain s1 where a: "eh_apply h v s op = Some s1"
    and r: "eh_run h v P s1 ops = Some s'"
    by (auto split: if_splits option.splits)
  from Cons(1)[OF r] apply_keeps_slots[OF a] show ?case by simp
qed

lemma init_slots:
  assumes "eh_init h (eh_dev_kzalloc n) fifo_size_arg env = Some (Inr s0)"
  shows "decompr_busy s0 = replicate n False" and "decompr_cmd_count s0 = env_decompr_cmds env"
    and "0 < env_decompr_cmds env"
  using assms
  by (auto simp: eh_init_def eh_hw_init_def eh_init_compression_def eh_init_decompression_def
      eh_sw_init_def Let_def eh_dev_kzalloc_def eh_compr_fifo_init_def eh_reset_def emit_def
      split: if_splits option.splits sum.splits)

text \<open>
  C10.  The device structure starts with every busy flag clear, and no operation of
  the driver changes a busy flag, whatever the device does.  So in every state that
  the driver reaches, the test of \<^verbatim>\<open>eh_decompress_page\<close> for a busy slot fails for
  every processor and the test of \<^verbatim>\<open>eh_suspend\<close> for a busy slot finds none:
  \<^verbatim>\<open>eh_decompress_page\<close> returns \<open>-EBUSY\<close> only on a suspended device and
  \<^verbatim>\<open>eh_suspend\<close> returns \<open>-EBUSY\<close> only with compressions in flight.  (The array of
  the structure has room for the commands of the device.)
\<close>

theorem decompr_busy_never_set:
  assumes "eh_init h (eh_dev_kzalloc n) fifo_size_arg env = Some (Inr s0)"
    and "env_decompr_cmds env \<le> n"
    and "eh_run h v (\<lambda>s op. True) s0 ops = Some s"
  shows "decompr_busy s = replicate n False \<and>
         \<not> decompr_busy s ! (cpu mod decompr_cmd_count s) \<and>
         \<not> list_ex (\<lambda>i. decompr_busy s ! i) [0..<decompr_cmd_count s] \<and>
         (eh_decompress_page h v s cpu compr_data compr_size page jiffies0 reads =
            Some (s', - EBUSY) \<longrightarrow> suspended s) \<and>
         (snd (eh_suspend h s ctrl) = - EBUSY \<longrightarrow> 0 < nr_request s)"
proof -
  note i = init_slots[OF assms(1)]
  note r = run_keeps_slots[OF assms(3)]
  have busy: "decompr_busy s = replicate n False" using r i(1) by simp
  have cnt: "decompr_cmd_count s = env_decompr_cmds env" using r i(2) by simp
  have lt: "cpu mod decompr_cmd_count s < n" for cpu
    using i(3) assms(2) by (simp add: cnt order_less_le_trans[OF mod_less_divisor])
  have nb: "\<not> decompr_busy s ! (cpu mod decompr_cmd_count s)" for cpu
    using lt[of cpu] by (simp add: busy)
  have none: "\<not> list_ex (\<lambda>i. decompr_busy s ! i) [0..<decompr_cmd_count s]"
    using assms(2) by (auto simp: list_ex_iff busy cnt)
  have dec: "suspended s"
    if "eh_decompress_page h v s cpu compr_data compr_size page jiffies0 reads =
          Some (s', - EBUSY)"
    using that nb[of cpu]
    by (auto simp: eh_decompress_page_def Let_def EBUSY_def ETIME_def EIO_def emit_def
        split: if_splits option.splits sum.splits)
  have sus: "0 < nr_request s" if "snd (eh_suspend h s ctrl) = - EBUSY"
    using that none by (auto simp: eh_suspend_def Let_def EBUSY_def emit_def split: if_splits)
  show ?thesis using busy nb none dec sus by blast
qed

theorem decompr_busy_never_set_witness:
  "eh_init example_hdr (eh_dev_kzalloc 2) 4 example_env =
     Some (Inr (projr (the (eh_init example_hdr (eh_dev_kzalloc 2) 4 example_env)))) \<and>
   env_decompr_cmds example_env \<le> 2 \<and>
   eh_run example_hdr (\<lambda>a. a) (\<lambda>s op. True)
     (projr (the (eh_init example_hdr (eh_dev_kzalloc 2) 4 example_env)))
     [Compress 4096 11, Decompress 1 128 100 20480 1000 [(1001, EH_DCMD_DECOMPRESSED)],
      Thread_pass 1 1 1, Suspend 0] =
     Some (the (eh_run example_hdr (\<lambda>a. a) (\<lambda>s op. True)
       (projr (the (eh_init example_hdr (eh_dev_kzalloc 2) 4 example_env)))
       [Compress 4096 11, Decompress 1 128 100 20480 1000 [(1001, EH_DCMD_DECOMPRESSED)],
        Thread_pass 1 1 1, Suspend 0])) \<and>
   decompr_busy (the (eh_run example_hdr (\<lambda>a. a) (\<lambda>s op. True)
       (projr (the (eh_init example_hdr (eh_dev_kzalloc 2) 4 example_env)))
       [Compress 4096 11, Decompress 1 128 100 20480 1000 [(1001, EH_DCMD_DECOMPRESSED)],
        Thread_pass 1 1 1, Suspend 0])) = replicate 2 False"
proof -
  have a: "eh_init example_hdr (eh_dev_kzalloc 2) 4 example_env =
     Some (Inr (projr (the (eh_init example_hdr (eh_dev_kzalloc 2) 4 example_env))))"
    by code_simp
  have b: "env_decompr_cmds example_env \<le> 2" by code_simp
  have c: "eh_run example_hdr (\<lambda>a. a) (\<lambda>s op. True)
     (projr (the (eh_init example_hdr (eh_dev_kzalloc 2) 4 example_env)))
     [Compress 4096 11, Decompress 1 128 100 20480 1000 [(1001, EH_DCMD_DECOMPRESSED)],
      Thread_pass 1 1 1, Suspend 0] =
     Some (the (eh_run example_hdr (\<lambda>a. a) (\<lambda>s op. True)
       (projr (the (eh_init example_hdr (eh_dev_kzalloc 2) 4 example_env)))
       [Compress 4096 11, Decompress 1 128 100 20480 1000 [(1001, EH_DCMD_DECOMPRESSED)],
        Thread_pass 1 1 1, Suspend 0]))"
    by code_simp
  show ?thesis using decompr_busy_never_set[OF a b c] a b c by blast
qed

subsection \<open>Locks and suspend\<close>

lemma eh_decompress_page_split:
  assumes "decompr_cmd_count s \<noteq> 0" "\<not> suspended s"
    "\<not> decompr_busy s ! (cpu mod decompr_cmd_count s)"
  shows "eh_decompress_page h v s cpu compr_data compr_size page jiffies0 reads =
         eh_decompress_page_poll h (eh_decompress_page_submit h v s cpu compr_data compr_size page)
           (cpu mod decompr_cmd_count s) jiffies0 reads"
  using assms
  by (simp add: eh_decompress_page_def eh_decompress_page_poll_def eh_decompress_page_submit_def
      Let_def emit_def)

lemma eh_suspend_split:
  "eh_suspend h s ctrl =
     eh_suspend_locked h
       (emit (Spin_lock Fifo_prod_lock #
              map (\<lambda>i. Spin_lock (Decompr_lock i)) [0..<decompr_cmd_count s]) s) ctrl"
  by (simp add: eh_suspend_def eh_suspend_locked_def Let_def emit_def)

lemma lock_held_append:
  "lock_held l (xs @ ys) = foldl (lock_step l) (lock_held l xs) ys"
  by (simp add: lock_held_def)

lemma lock_held_emit:
  "lock_held l (trace (emit evs s)) = foldl (lock_step l) (lock_held l (trace s)) evs"
  by (simp add: emit_def lock_held_append)

lemma fold_decompr_locks:
  "foldl (lock_step l) b (map (\<lambda>i. Spin_lock (Decompr_lock i)) xs) =
     (b \<or> l \<in> Decompr_lock ` set xs)"
  by (induction xs arbitrary: b) auto

lemma fold_decompr_unlocks:
  "foldl (lock_step l) b (map (\<lambda>i. Spin_unlock (Decompr_lock i)) xs) =
     (b \<and> l \<notin> Decompr_lock ` set xs)"
  by (induction xs arbitrary: b) auto

lemma spin_free:
  "\<not> lock_held l (trace s) \<Longrightarrow> spin_lock l s others = Some (emit [Spin_lock l] s, others)"
  by (cases others) simp_all

lemma emit_emit: "emit ys (emit xs s) = emit (xs @ ys) s"
  by (simp add: emit_def)

lemma grab_free:
  assumes "distinct ls" and "\<forall>l\<in>set ls. \<not> lock_held l (trace s)"
  shows "eh_grab_locks ls s others = Some (emit (map Spin_lock ls) s, others)"
  using assms
proof (induction ls arbitrary: s)
  case Nil
  show ?case by (simp add: emit_def)
next
  case (Cons l ls)
  have a: "spin_lock l s others = Some (emit [Spin_lock l] s, others)"
    using Cons(3) by (simp add: spin_free)
  have free: "\<forall>l'\<in>set ls. \<not> lock_held l' (trace (emit [Spin_lock l] s))"
    using Cons(2) Cons(3) by (auto simp: lock_held_emit)
  have d: "distinct ls" using Cons(2) by simp
  show ?case using Cons.IH[OF d free] by (simp add: a emit_emit)
qed

lemma grab_append:
  "eh_grab_locks (xs @ ys) s others =
     (case eh_grab_locks xs s others of
        None \<Rightarrow> None
      | Some (s', others') \<Rightarrow> eh_grab_locks ys s' others')"
  by (induction xs arbitrary: s others) (auto split: option.splits)

text \<open>The completion thread takes and releases no lock.\<close>

lemma slot_locks:
  "lock_held l (trace (fst (eh_process_slot h s i))) = lock_held l (trace s)"
proof -
  have sw: "foldl (lock_step l) b (snd (snd (compr_switch st buf))) = b" for b st buf
    by (cases st) simp_all
  show ?thesis
    by (simp add: eh_process_slot_def eh_process_completed_descriptor_def Let_def split_beta
        emit_def lock_held_append sw)
qed

lemma abort_slot_locks: "lock_held l (trace (eh_abort_slot s i)) = lock_held l (trace s)"
  by (simp add: eh_abort_slot_def Let_def emit_def lock_held_append)

lemma completions_locks:
  assumes "eh_process_completions h s i e = Some r"
  shows "lock_held l (trace (fst r)) = lock_held l (trace s)"
proof (rule eh_process_completions.raw_induct[where
      P="\<lambda>h s i e r. lock_held l (trace (fst r)) = lock_held l (trace s)", OF _ assms])
  fix loop h s i e r
  assume IH: "\<And>h s i e y. loop h s i e = Some y \<Longrightarrow>
                lock_held l (trace (fst y)) = lock_held l (trace s)"
    and body: "(if i = e then Some (s, 0)
                else if snd (eh_process_slot h s i) \<noteq> 0 then Some (eh_process_slot h s i)
                else loop h (fst (eh_process_slot h s i))
                       ((i + 1) AND fifo_color_mask (fst (eh_process_slot h s i))) e) = Some r"
  show "lock_held l (trace (fst r)) = lock_held l (trace s)"
  proof (cases "i = e")
    case True
    then show ?thesis using body by auto
  next
    case ne: False
    show ?thesis
    proof (cases "snd (eh_process_slot h s i) \<noteq> 0")
      case True
      then have "r = eh_process_slot h s i" using body ne by simp
      then show ?thesis by (simp add: slot_locks)
    next
      case False
      then have "loop h (fst (eh_process_slot h s i))
                   ((i + 1) AND fifo_color_mask (fst (eh_process_slot h s i))) e = Some r"
        using body ne by simp
      from IH[OF this] show ?thesis by (simp add: slot_locks)
    qed
  qed
qed

lemma abort_loop_locks:
  assumes "eh_abort_loop s i mw = Some s'"
  shows "lock_held l (trace s') = lock_held l (trace s)"
proof (rule eh_abort_loop.raw_induct[where
      P="\<lambda>s i mw s'. lock_held l (trace s') = lock_held l (trace s)", OF _ assms])
  fix loop s i mw s'
  assume IH: "\<And>s i mw y. loop s i mw = Some y \<Longrightarrow> lock_held l (trace y) = lock_held l (trace s)"
    and body: "(if i = mw then Some s
                else loop (eh_abort_slot s i) ((i + 1) AND fifo_index_mask s) mw) = Some s'"
  show "lock_held l (trace s') = lock_held l (trace s)"
  proof (cases "i = mw")
    case True
    then show ?thesis using body by auto
  next
    case False
    then have "loop (eh_abort_slot s i) ((i + 1) AND fifo_index_mask s) mw = Some s'"
      using body by simp
    from IH[OF this] show ?thesis by (simp add: abort_slot_locks)
  qed
qed

lemma thread_pass_locks:
  assumes "eh_comp_thread_pass h s raw error raw2 = Some s'"
  shows "lock_held l (trace s') = lock_held l (trace s)"
proof -
  from assms obtain s1 ret where u: "eh_update_complete_index h s raw = Some (s1, ret)"
    by (auto simp: eh_comp_thread_pass_def split: if_splits option.splits)
  have l1: "lock_held l (trace s1) = lock_held l (trace s)"
    using u completions_locks[of h s "complete_index s" _ "(s1, ret)" l]
    by (auto simp: eh_update_complete_index_def Let_def split: if_splits)
  show ?thesis
  proof (cases "ret \<noteq> 0 \<and> error \<noteq> 0")
    case True
    then obtain s2 where a: "eh_abort_incomplete_descriptors h (emit [Pr_err, Dump_regs] s1) raw2
        = Some s2" and s': "s' = s2\<lparr>comp_thread_running := False\<rparr>"
      using assms u by (auto simp: eh_comp_thread_pass_def split: if_splits option.splits)
    from a have "lock_held l (trace s2) = lock_held l (trace (emit [Pr_err, Dump_regs] s1))"
      using abort_loop_locks by (auto simp: eh_abort_incomplete_descriptors_def Let_def)
    then show ?thesis using l1 s' by (simp add: lock_held_emit)
  next
    case False
    then have "s' = s1 \<or> s' = emit [Warn] s1"
      using assms u by (auto simp: eh_comp_thread_pass_def split: if_splits option.splits)
    then show ?thesis using l1 by (auto simp: lock_held_emit)
  qed
qed

text \<open>Every operation releases the locks it takes: between operations no lock is held.\<close>

lemma apply_no_locks:
  assumes "\<forall>l. \<not> lock_held l (trace s)" and "eh_apply h v s op = Some s'"
  shows "\<forall>l. \<not> lock_held l (trace s')"
proof (cases op)
  case (Compress page p)
  then show ?thesis using assms
    by (auto simp: eh_compress_page_try_def Let_def emit_def eh_setup_descriptor_def
        lock_held_append split: if_splits)
next
  case (Device_write i st len sel)
  then show ?thesis using assms by (auto simp: device_writes_def)
next
  case (Thread_pass raw error raw2)
  then have "eh_comp_thread_pass h s raw error raw2 = Some s'"
    using assms(2) by (simp split: if_splits)
  from thread_pass_locks[OF this] show ?thesis using assms(1) by simp
next
  case (Decompress cpu a len page j0 reads)
  then show ?thesis using assms
    by (auto simp: eh_decompress_page_def eh_setup_dcmd_def Let_def emit_def split_beta
        lock_held_append split: if_splits option.splits sum.splits)
next
  case (Suspend ctrl)
  then have s': "s' = fst (eh_suspend h s ctrl)" using assms(2) by simp
  show ?thesis
    unfolding s' using assms(1)
    by (auto simp: eh_suspend_def Let_def emit_def lock_held_append
        fold_decompr_locks fold_decompr_unlocks)
next
  case (Resume pa reads)
  then show ?thesis using assms
    by (auto simp: eh_resume_def eh_compr_fifo_init_def Let_def emit_def lock_held_append
        split: if_splits option.splits)
qed

lemma run_no_locks:
  assumes "\<forall>l. \<not> lock_held l (trace s)" and "eh_run h v P s ops = Some s'"
  shows "\<forall>l. \<not> lock_held l (trace s')"
  using assms
proof (induction ops arbitrary: s)
  case Nil
  then show ?case by simp
next
  case (Cons op ops)
  from Cons(3) obtain s1 where a: "eh_apply h v s op = Some s1"
    and r: "eh_run h v P s1 ops = Some s'"
    by (auto split: if_splits option.splits)
  from Cons(1)[OF apply_no_locks[OF Cons(2) a] r] show ?case .
qed

lemma init_no_locks:
  assumes "eh_init h (eh_dev_kzalloc n) fifo_size_arg env = Some (Inr s0)"
  shows "\<forall>l. \<not> lock_held l (trace s0)"
  using assms
  by (auto simp: eh_init_def eh_hw_init_def eh_init_compression_def eh_init_decompression_def
      eh_sw_init_def Let_def eh_dev_kzalloc_def eh_compr_fifo_init_def eh_reset_def emit_def
      lock_held_def
      split: if_splits option.splits sum.splits)


lemma suspend_uncontended:
  assumes "\<forall>l. \<not> lock_held l (trace s)"
  shows "eh_suspend_spin h s others ctrl = Some (eh_suspend h s ctrl)"
proof -
  let ?ls = "Fifo_prod_lock # map Decompr_lock [0..<decompr_cmd_count s]"
  have d: "distinct ?ls" by (auto simp: distinct_map inj_on_def)
  have g: "eh_grab_locks ?ls s others = Some (emit (map Spin_lock ?ls) s, others)"
    using assms by (intro grab_free[OF d]) simp
  have m: "map Spin_lock ?ls =
           Spin_lock Fifo_prod_lock #
           map (\<lambda>i. Spin_lock (Decompr_lock i)) [0..<decompr_cmd_count s]"
    by (simp add: comp_def)
  show ?thesis
    unfolding eh_suspend_spin_def g m by (simp add: eh_suspend_split)
qed

lemma poll_events:
  assumes "eh_decompress_page_poll h s1 i jiffies0 reads = Some (s2, rc)"
  shows "\<exists>tail. s2 = emit tail s1 \<and>
           (\<forall>t. eh_decompress_page_poll h t i jiffies0 reads = Some (emit tail t, rc)) \<and>
           (\<forall>l b. foldl (lock_step l) b tail = (b \<and> l \<noteq> Decompr_lock i))"
proof (cases "eh_poll (jiffies0 + POLL_DELAY h) reads")
  case None
  then show ?thesis using assms by (simp add: eh_decompress_page_poll_def)
next
  case (Some r)
  show ?thesis
  proof (cases r)
    case (Inl u)
    then show ?thesis using assms Some
      by (intro exI[of _ "[Pr_err, Dump_regs, Spin_unlock (Decompr_lock i)]"])
        (auto simp: eh_decompress_page_poll_def)
  next
    case (Inr status)
    show ?thesis
    proof (cases "status = EH_DCMD_DECOMPRESSED")
      case True
      then show ?thesis using assms Some Inr
        by (intro exI[of _ "[Update_latency EH_DECOMPRESS_POLL, Spin_unlock (Decompr_lock i)]"])
          (auto simp: eh_decompress_page_poll_def Let_def emit_emit)
    next
      case False
      then show ?thesis using assms Some Inr
        by (intro exI[of _ "[Update_latency EH_DECOMPRESS_POLL, Pr_err, Dump_regs,
                             Spin_unlock (Decompr_lock i)]"])
          (auto simp: eh_decompress_page_poll_def Let_def emit_emit)
    qed
  qed
qed

lemma submit_fields:
  fixes h v s cpu compr_data compr_size page
  defines "s1 \<equiv> eh_decompress_page_submit h v s cpu compr_data compr_size page"
  shows "decompr_cmd_count s1 = decompr_cmd_count s"
    and "lock_held l (trace s1) =
           (l = Decompr_lock (cpu mod decompr_cmd_count s) \<or> lock_held l (trace s))"
    and "s1 = s\<lparr>trace := trace s1\<rparr>"
  unfolding s1_def
  by (auto simp: eh_decompress_page_submit_def eh_setup_dcmd_def Let_def split_beta emit_def
      lock_held_append)

lemma spin_until_decompression_returns:
  fixes h v s cpu compr_data compr_size page
  defines "i \<equiv> cpu mod decompr_cmd_count s"
    and "s1 \<equiv> eh_decompress_page_submit h v s cpu compr_data compr_size page"
  assumes free: "\<forall>l. \<not> lock_held l (trace s)" and n: "0 < decompr_cmd_count s"
  shows "eh_suspend_spin h s1 [] ctrl = None"
    and "eh_decompress_page_poll h s1 i jiffies0 reads = Some (s2, rc) \<Longrightarrow>
         eh_suspend_spin h s1 [eh_decompress_page_returns h i jiffies0 reads] ctrl =
           Some (eh_suspend_locked h
                  (emit (Spin_lock Fifo_prod_lock #
                         map (\<lambda>j. Spin_lock (Decompr_lock j)) [0..<i] @
                         drop (length (trace s1)) (trace s2) @
                         map (\<lambda>j. Spin_lock (Decompr_lock j)) [i..<decompr_cmd_count s]) s1)
                  ctrl)"
proof -
  let ?n = "decompr_cmd_count s"
  note f = submit_fields[where h=h and v=v and s=s and cpu=cpu and compr_data=compr_data
      and compr_size=compr_size and page=page, folded s1_def i_def]
  have i: "i < ?n" using n by (simp add: i_def)
  have held: "lock_held l (trace s1) = (l = Decompr_lock i)" for l
    using f(2)[of l] free by simp
  let ?before = "Fifo_prod_lock # map Decompr_lock [0..<i]"
  let ?after = "map Decompr_lock [Suc i..<?n]"
  have split: "Fifo_prod_lock # map Decompr_lock [0..<decompr_cmd_count s1] =
               ?before @ Decompr_lock i # ?after"
  proof -
    have "[0..<?n] = [0..<i] @ i # [Suc i..<?n]"
      using i by (metis le_add1 less_imp_add_positive upt_add_eq_append upt_conv_Cons
          add.left_neutral less_eq_nat.simps(1))
    then show ?thesis by (simp add: f(1))
  qed
  define a where "a = emit (Spin_lock Fifo_prod_lock #
                           map (\<lambda>j. Spin_lock (Decompr_lock j)) [0..<i]) s1"
  have mb: "map Spin_lock ?before =
            Spin_lock Fifo_prod_lock # map (\<lambda>j. Spin_lock (Decompr_lock j)) [0..<i]"
    and ma: "map Spin_lock ?after = map (\<lambda>j. Spin_lock (Decompr_lock j)) [Suc i..<?n]"
    by (simp_all add: comp_def)
  have d1: "distinct ?before" by (auto simp: distinct_map inj_on_def)
  have g1: "eh_grab_locks ?before s1 others = Some (a, others)" for others
    unfolding a_def mb[symmetric] by (intro grab_free[OF d1]) (auto simp: held)
  have held_a: "lock_held l (trace a) = (l = Fifo_prod_lock \<or> l \<in> Decompr_lock ` {0..i})" for l
    unfolding a_def by (auto simp: lock_held_emit fold_decompr_locks held)
  have spin0: "spin_lock (Decompr_lock i) a [] = None"
    by (simp add: held_a)
  have whole: "eh_grab_locks (?before @ Decompr_lock i # ?after) s1 others =
               (case spin_lock (Decompr_lock i) a others of
                  None \<Rightarrow> None
                | Some (s', others') \<Rightarrow> eh_grab_locks ?after s' others')" for others
    unfolding grab_append g1 by simp
  show "eh_suspend_spin h s1 [] ctrl = None"
    unfolding eh_suspend_spin_def split whole spin0 by simp
  show "eh_suspend_spin h s1 [eh_decompress_page_returns h i jiffies0 reads] ctrl =
           Some (eh_suspend_locked h
                  (emit (Spin_lock Fifo_prod_lock #
                         map (\<lambda>j. Spin_lock (Decompr_lock j)) [0..<i] @
                         drop (length (trace s1)) (trace s2) @
                         map (\<lambda>j. Spin_lock (Decompr_lock j)) [i..<decompr_cmd_count s]) s1)
                  ctrl)"
    if poll: "eh_decompress_page_poll h s1 i jiffies0 reads = Some (s2, rc)"
  proof -
    from poll_events[OF poll] obtain tail where s2: "s2 = emit tail s1"
      and any: "\<And>t. eh_decompress_page_poll h t i jiffies0 reads = Some (emit tail t, rc)"
      and neutral: "\<And>l b. foldl (lock_step l) b tail = (b \<and> l \<noteq> Decompr_lock i)"
      by blast
    have tl: "drop (length (trace s1)) (trace s2) = tail" by (simp add: s2 emit_def)
    define b where "b = emit tail a"
    have ret: "eh_decompress_page_returns h i jiffies0 reads a = b"
      by (simp add: eh_decompress_page_returns_def any b_def)
    have held_b: "lock_held l (trace b) = (l = Fifo_prod_lock \<or> l \<in> Decompr_lock ` {0..<i})"
      for l
      unfolding b_def by (auto simp: lock_held_emit neutral held_a)
    have spin1: "spin_lock (Decompr_lock i) a [eh_decompress_page_returns h i jiffies0 reads] =
                 Some (emit [Spin_lock (Decompr_lock i)] b, [])"
      by (auto simp: held_a ret held_b)
    define c where "c = emit [Spin_lock (Decompr_lock i)] b"
    have d2: "distinct ?after" by (auto simp: distinct_map inj_on_def)
    have g2: "eh_grab_locks ?after c [] =
              Some (emit (map (\<lambda>j. Spin_lock (Decompr_lock j)) [Suc i..<?n]) c, [])"
      unfolding c_def ma[symmetric]
      by (intro grab_free[OF d2]) (auto simp: lock_held_emit held_b)
    have upt: "[i..<?n] = i # [Suc i..<?n]" using i by (simp add: upt_conv_Cons)
    have final: "emit (map (\<lambda>j. Spin_lock (Decompr_lock j)) [Suc i..<?n]) c =
                 emit (Spin_lock Fifo_prod_lock #
                       map (\<lambda>j. Spin_lock (Decompr_lock j)) [0..<i] @ tail @
                       map (\<lambda>j. Spin_lock (Decompr_lock j)) [i..<?n]) s1"
      unfolding c_def b_def a_def upt by (simp add: emit_def)
    have "eh_grab_locks (?before @ Decompr_lock i # ?after) s1
            [eh_decompress_page_returns h i jiffies0 reads] = eh_grab_locks ?after c []"
      unfolding whole spin1 c_def by simp
    then show ?thesis
      unfolding eh_suspend_spin_def split tl g2 final by simp
  qed
qed


lemma suspend_locked_outcomes:
  assumes "\<not> list_ex (\<lambda>i. decompr_busy t ! i) [0..<decompr_cmd_count t]"
  shows "eh_suspend_locked h (emit acq t) ctrl =
           (let m = decompr_cmd_count t;
                unlocks = map (\<lambda>i. Spin_unlock (Decompr_lock i)) (rev [0..<m]) @
                          [Spin_unlock Fifo_prod_lock]
            in if nr_request t > 0
               then (emit (acq @ [Pr_warn] @ unlocks) t, - EBUSY)
               else (emit (acq @
                       [Write_register EH_REG_INTRP_MASK_ERROR (- 1),
                        Write_register EH_REG_INTRP_MASK_CMP (- 1),
                        Write_register EH_REG_INTRP_MASK_DCMP (- 1),
                        Write_register EH_REG_CDESC_CTRL
                          (ctrl AND NOT (push_bit (EH_CDESC_CTRL_COMPRESS_ENABLE_SHIFT h) 1)),
                        Clk_disable_unprepare, Pr_info] @ unlocks) (t\<lparr>suspended := True\<rparr>), 0))"
  using assms by (auto simp: eh_suspend_locked_def Let_def emit_def)

text \<open>
  C8 (as the code has it).  \<^verbatim>\<open>eh_suspend\<close> takes the lock of the ring and then the
  locks of the command slots by rising index.  With compressions pending
  (\<open>nr_request\<close> positive), or with a busy flag set, it returns \<open>-EBUSY\<close>, having
  written no register and left \<open>suspended\<close> as it was.  Otherwise it masks the three
  interrupt groups, clears the enable bit of the ring, stops the clock, sets
  \<open>suspended\<close> and returns 0.  In both cases the locks are released in the reverse
  order.  In the states that the driver reaches, no busy flag is set, and no lock is
  held between its operations, so that \<^verbatim>\<open>eh_suspend\<close> gets its locks without waiting
  and refuses for pending compressions only.  A decompression in flight does not make
  it refuse: \<^verbatim>\<open>eh_decompress_page\<close> holds the lock of its command slot from entry to
  return and sets no busy flag, so \<^verbatim>\<open>eh_suspend\<close> spins on that lock, not returning
  while the decompression lasts, and when \<^verbatim>\<open>eh_decompress_page\<close> has returned it
  takes the lock and goes on as before: \<open>-EBUSY\<close> only with compressions pending,
  otherwise the registers are written and \<open>suspended\<close> is set.  (The array of busy
  flags has room for the commands of the device.)
\<close>

theorem eh_suspend_outcomes:
  assumes "eh_init h (eh_dev_kzalloc n) fifo_size_arg env = Some (Inr s0)"
    and "env_decompr_cmds env \<le> n"
    and "eh_run h v (\<lambda>s op. True) s0 ops = Some s"
  shows "eh_suspend h t ctrl =
           (let m = decompr_cmd_count t;
                locks = Spin_lock Fifo_prod_lock #
                        map (\<lambda>i. Spin_lock (Decompr_lock i)) [0..<m];
                unlocks = map (\<lambda>i. Spin_unlock (Decompr_lock i)) (rev [0..<m]) @
                          [Spin_unlock Fifo_prod_lock]
            in if nr_request t > 0 \<or> (\<exists>i<m. decompr_busy t ! i)
               then (emit (locks @ [Pr_warn] @ unlocks) t, - EBUSY)
               else (emit (locks @
                       [Write_register EH_REG_INTRP_MASK_ERROR (- 1),
                        Write_register EH_REG_INTRP_MASK_CMP (- 1),
                        Write_register EH_REG_INTRP_MASK_DCMP (- 1),
                        Write_register EH_REG_CDESC_CTRL
                          (ctrl AND NOT (push_bit (EH_CDESC_CTRL_COMPRESS_ENABLE_SHIFT h) 1)),
                        Clk_disable_unprepare, Pr_info] @ unlocks) (t\<lparr>suspended := True\<rparr>), 0)) \<and>
         \<not> (\<exists>i<decompr_cmd_count s. decompr_busy s ! i) \<and>
         eh_suspend_spin h s others ctrl = Some (eh_suspend h s ctrl) \<and>
         (\<not> suspended s \<longrightarrow>
            (let m = decompr_cmd_count s;
                 i = cpu mod m;
                 s1 = eh_decompress_page_submit h v s cpu compr_data compr_size page;
                 unlocks = map (\<lambda>i. Spin_unlock (Decompr_lock i)) (rev [0..<m]) @
                           [Spin_unlock Fifo_prod_lock]
             in eh_decompress_page h v s cpu compr_data compr_size page jiffies0 reads =
                  eh_decompress_page_poll h s1 i jiffies0 reads \<and>
                lock_held (Decompr_lock i) (trace s1) \<and>
                eh_suspend_spin h s1 [] ctrl = None \<and>
                (\<forall>s2 rc. eh_decompress_page_poll h s1 i jiffies0 reads = Some (s2, rc) \<longrightarrow>
                   eh_suspend_spin h s1 [eh_decompress_page_returns h i jiffies0 reads] ctrl =
                     (let locks = Spin_lock Fifo_prod_lock #
                                  map (\<lambda>j. Spin_lock (Decompr_lock j)) [0..<i] @
                                  drop (length (trace s1)) (trace s2) @
                                  map (\<lambda>j. Spin_lock (Decompr_lock j)) [i..<m]
                      in if nr_request s > 0
                         then Some (emit (locks @ [Pr_warn] @ unlocks) s1, - EBUSY)
                         else Some (emit (locks @
                                 [Write_register EH_REG_INTRP_MASK_ERROR (- 1),
                                  Write_register EH_REG_INTRP_MASK_CMP (- 1),
                                  Write_register EH_REG_INTRP_MASK_DCMP (- 1),
                                  Write_register EH_REG_CDESC_CTRL
                                    (ctrl AND
                                     NOT (push_bit (EH_CDESC_CTRL_COMPRESS_ENABLE_SHIFT h) 1)),
                                  Clk_disable_unprepare, Pr_info] @ unlocks)
                                 (s1\<lparr>suspended := True\<rparr>), 0)))))"
proof -
  note i = init_slots[OF assms(1)]
  note r = run_keeps_slots[OF assms(3)]
  have busy: "decompr_busy s = replicate n False" using r i(1) by simp
  have cnt: "decompr_cmd_count s = env_decompr_cmds env" using r i(2) by simp
  have pos: "0 < decompr_cmd_count s" using i(3) cnt by simp
  have none: "\<not> list_ex (\<lambda>i. decompr_busy s ! i) [0..<decompr_cmd_count s]"
    using assms(2) by (auto simp: list_ex_iff busy cnt)
  have lt: "cpu mod decompr_cmd_count s < n"
    using pos assms(2) by (simp add: cnt order_less_le_trans[OF mod_less_divisor])
  have nb: "\<not> decompr_busy s ! (cpu mod decompr_cmd_count s)"
    using lt by (simp add: busy)
  have free: "\<forall>l. \<not> lock_held l (trace s)"
    by (rule run_no_locks[OF init_no_locks[OF assms(1)] assms(3)])
  have a: "eh_suspend_spin h s others ctrl = Some (eh_suspend h s ctrl)"
    by (rule suspend_uncontended[OF free])
  have b: "eh_suspend h t ctrl =
           (let m = decompr_cmd_count t;
                locks = Spin_lock Fifo_prod_lock #
                        map (\<lambda>i. Spin_lock (Decompr_lock i)) [0..<m];
                unlocks = map (\<lambda>i. Spin_unlock (Decompr_lock i)) (rev [0..<m]) @
                          [Spin_unlock Fifo_prod_lock]
            in if nr_request t > 0 \<or> (\<exists>i<m. decompr_busy t ! i)
               then (emit (locks @ [Pr_warn] @ unlocks) t, - EBUSY)
               else (emit (locks @
                       [Write_register EH_REG_INTRP_MASK_ERROR (- 1),
                        Write_register EH_REG_INTRP_MASK_CMP (- 1),
                        Write_register EH_REG_INTRP_MASK_DCMP (- 1),
                        Write_register EH_REG_CDESC_CTRL
                          (ctrl AND NOT (push_bit (EH_CDESC_CTRL_COMPRESS_ENABLE_SHIFT h) 1)),
                        Clk_disable_unprepare, Pr_info] @ unlocks) (t\<lparr>suspended := True\<rparr>), 0))"
    by (auto simp: eh_suspend_def Let_def emit_def list_ex_iff)
  have b': "\<not> (\<exists>i<decompr_cmd_count s. decompr_busy s ! i)"
    using none by (auto simp: list_ex_iff)
  define s1 where "s1 = eh_decompress_page_submit h v s cpu compr_data compr_size page"
  note f = submit_fields[where h=h and v=v and s=s and cpu=cpu and compr_data=compr_data
      and compr_size=compr_size and page=page, folded s1_def]
  have f1: "nr_request s1 = nr_request s" "decompr_busy s1 = decompr_busy s"
    by (subst f(3), simp)+
  have none1: "\<not> list_ex (\<lambda>i. decompr_busy s1 ! i) [0..<decompr_cmd_count s1]"
    using none by (simp add: f(1) f1)
  note w = spin_until_decompression_returns[OF free pos, of h v cpu compr_data compr_size page,
      folded s1_def]
  have c1: "eh_decompress_page h v s cpu compr_data compr_size page jiffies0 reads =
            eh_decompress_page_poll h s1 (cpu mod decompr_cmd_count s) jiffies0 reads"
    if "\<not> suspended s"
    unfolding s1_def using pos that nb by (intro eh_decompress_page_split) simp_all
  have c2: "lock_held (Decompr_lock (cpu mod decompr_cmd_count s)) (trace s1)"
    by (simp add: f(2))
  have c3: "eh_suspend_spin h s1 [] ctrl = None" by (rule w(1))
  have c4: "eh_suspend_spin h s1
              [eh_decompress_page_returns h (cpu mod decompr_cmd_count s) jiffies0 reads] ctrl =
            (let m = decompr_cmd_count s; i = cpu mod m;
                 unlocks = map (\<lambda>i. Spin_unlock (Decompr_lock i)) (rev [0..<m]) @
                           [Spin_unlock Fifo_prod_lock];
                 locks = Spin_lock Fifo_prod_lock #
                         map (\<lambda>j. Spin_lock (Decompr_lock j)) [0..<i] @
                         drop (length (trace s1)) (trace s2) @
                         map (\<lambda>j. Spin_lock (Decompr_lock j)) [i..<m]
             in if nr_request s > 0
                then Some (emit (locks @ [Pr_warn] @ unlocks) s1, - EBUSY)
                else Some (emit (locks @
                        [Write_register EH_REG_INTRP_MASK_ERROR (- 1),
                         Write_register EH_REG_INTRP_MASK_CMP (- 1),
                         Write_register EH_REG_INTRP_MASK_DCMP (- 1),
                         Write_register EH_REG_CDESC_CTRL
                           (ctrl AND NOT (push_bit (EH_CDESC_CTRL_COMPRESS_ENABLE_SHIFT h) 1)),
                         Clk_disable_unprepare, Pr_info] @ unlocks)
                        (s1\<lparr>suspended := True\<rparr>), 0))"
    if "eh_decompress_page_poll h s1 (cpu mod decompr_cmd_count s) jiffies0 reads = Some (s2, rc)"
    for s2 rc
    unfolding w(2)[OF that] suspend_locked_outcomes[OF none1]
    by (simp add: Let_def f(1) f1)
  have c: "\<not> suspended s \<longrightarrow>
            (let m = decompr_cmd_count s;
                 i = cpu mod m;
                 s1 = eh_decompress_page_submit h v s cpu compr_data compr_size page;
                 unlocks = map (\<lambda>i. Spin_unlock (Decompr_lock i)) (rev [0..<m]) @
                           [Spin_unlock Fifo_prod_lock]
             in eh_decompress_page h v s cpu compr_data compr_size page jiffies0 reads =
                  eh_decompress_page_poll h s1 i jiffies0 reads \<and>
                lock_held (Decompr_lock i) (trace s1) \<and>
                eh_suspend_spin h s1 [] ctrl = None \<and>
                (\<forall>s2 rc. eh_decompress_page_poll h s1 i jiffies0 reads = Some (s2, rc) \<longrightarrow>
                   eh_suspend_spin h s1 [eh_decompress_page_returns h i jiffies0 reads] ctrl =
                     (let locks = Spin_lock Fifo_prod_lock #
                                  map (\<lambda>j. Spin_lock (Decompr_lock j)) [0..<i] @
                                  drop (length (trace s1)) (trace s2) @
                                  map (\<lambda>j. Spin_lock (Decompr_lock j)) [i..<m]
                      in if nr_request s > 0
                         then Some (emit (locks @ [Pr_warn] @ unlocks) s1, - EBUSY)
                         else Some (emit (locks @
                                 [Write_register EH_REG_INTRP_MASK_ERROR (- 1),
                                  Write_register EH_REG_INTRP_MASK_CMP (- 1),
                                  Write_register EH_REG_INTRP_MASK_DCMP (- 1),
                                  Write_register EH_REG_CDESC_CTRL
                                    (ctrl AND
                                     NOT (push_bit (EH_CDESC_CTRL_COMPRESS_ENABLE_SHIFT h) 1)),
                                  Clk_disable_unprepare, Pr_info] @ unlocks)
                                 (s1\<lparr>suspended := True\<rparr>), 0))))"
    unfolding s1_def[symmetric] Let_def
    using c1 c2 c3 c4 by (simp add: Let_def)
  show ?thesis using a b b' c by blast
qed


theorem eh_suspend_outcomes_witness:
  "eh_init example_hdr (eh_dev_kzalloc 2) 4 example_env = Some (Inr started_dev) \<and>
   env_decompr_cmds example_env \<le> 2 \<and>
   eh_run example_hdr (\<lambda>a. a) (\<lambda>s op. True) started_dev quiet_run = Some quiet_dev \<and>
   eh_run example_hdr (\<lambda>a. a) (\<lambda>s op. True) started_dev [Compress 4096 11] =
     Some (after_ops (\<lambda>s op. True) started_dev [Compress 4096 11]) \<and>
   eh_suspend example_hdr (after_ops (\<lambda>s op. True) started_dev [Compress 4096 11]) 0 =
     (emit [Spin_lock Fifo_prod_lock, Spin_lock (Decompr_lock 0), Spin_lock (Decompr_lock 1),
            Pr_warn,
            Spin_unlock (Decompr_lock 1), Spin_unlock (Decompr_lock 0),
            Spin_unlock Fifo_prod_lock]
        (after_ops (\<lambda>s op. True) started_dev [Compress 4096 11]), - EBUSY) \<and>
   eh_suspend_spin example_hdr quiet_dev [] (push_bit 62 1) =
     Some (emit [Spin_lock Fifo_prod_lock, Spin_lock (Decompr_lock 0), Spin_lock (Decompr_lock 1),
            Write_register EH_REG_INTRP_MASK_ERROR (- 1),
            Write_register EH_REG_INTRP_MASK_CMP (- 1),
            Write_register EH_REG_INTRP_MASK_DCMP (- 1),
            Write_register EH_REG_CDESC_CTRL 0,
            Clk_disable_unprepare, Pr_info,
            Spin_unlock (Decompr_lock 1), Spin_unlock (Decompr_lock 0),
            Spin_unlock Fifo_prod_lock] (quiet_dev\<lparr>suspended := True\<rparr>), 0) \<and>
   \<not> suspended quiet_dev \<and>
   lock_held (Decompr_lock 1) (trace decompressing_dev) \<and>
   eh_suspend_spin example_hdr decompressing_dev [] (push_bit 62 1) = None \<and>
   eh_decompress_page_poll example_hdr decompressing_dev 1 1000 [(1001, EH_DCMD_DECOMPRESSED)] =
     Some (emit [Update_latency EH_DECOMPRESS_POLL, Spin_unlock (Decompr_lock 1)]
             decompressing_dev, 0) \<and>
   eh_suspend_spin example_hdr decompressing_dev
     [eh_decompress_page_returns example_hdr 1 1000 [(1001, EH_DCMD_DECOMPRESSED)]]
     (push_bit 62 1) =
     Some (emit [Spin_lock Fifo_prod_lock, Spin_lock (Decompr_lock 0),
            Update_latency EH_DECOMPRESS_POLL, Spin_unlock (Decompr_lock 1),
            Spin_lock (Decompr_lock 1),
            Write_register EH_REG_INTRP_MASK_ERROR (- 1),
            Write_register EH_REG_INTRP_MASK_CMP (- 1),
            Write_register EH_REG_INTRP_MASK_DCMP (- 1),
            Write_register EH_REG_CDESC_CTRL 0,
            Clk_disable_unprepare, Pr_info,
            Spin_unlock (Decompr_lock 1), Spin_unlock (Decompr_lock 0),
            Spin_unlock Fifo_prod_lock] (decompressing_dev\<lparr>suspended := True\<rparr>), 0)"
proof -
  define B where "B = after_ops (\<lambda>s op. True) started_dev [Compress 4096 11]"
  have a: "eh_init example_hdr (eh_dev_kzalloc 2) 4 example_env = Some (Inr started_dev)"
    by code_simp
  have b: "env_decompr_cmds example_env \<le> 2" by code_simp
  have c: "eh_run example_hdr (\<lambda>a. a) (\<lambda>s op. True) started_dev quiet_run = Some quiet_dev"
    by code_simp
  have c': "eh_run example_hdr (\<lambda>a. a) (\<lambda>s op. True) started_dev [Compress 4096 11] = Some B"
    unfolding B_def by code_simp
  have q: "nr_request quiet_dev = 0" "decompr_cmd_count quiet_dev = 2" "\<not> suspended quiet_dev"
    "EH_CDESC_CTRL_COMPRESS_ENABLE_SHIFT example_hdr = 62"
    by code_simp+
  have nb: "nr_request B = 1" "decompr_cmd_count B = 2"
    unfolding B_def by code_simp+
  have p: "eh_decompress_page_poll example_hdr decompressing_dev 1 1000
             [(1001, EH_DCMD_DECOMPRESSED)] =
           Some (emit [Update_latency EH_DECOMPRESS_POLL, Spin_unlock (Decompr_lock 1)]
                   decompressing_dev, 0)"
    by code_simp
  have u: "[0..<2] = [0, Suc 0]" "[Suc 0..<2] = [Suc 0]" by (simp_all add: upt_rec)
  have ctrl: "(push_bit 62 1 :: 64 word) AND NOT (push_bit 62 1) = 0" by simp
  note tb = eh_suspend_outcomes[OF a b c', where ctrl=0]
  note tq = eh_suspend_outcomes[OF a b c, where ctrl="push_bit 62 1" and others="[]" and cpu=1
      and compr_data=128 and compr_size=100 and page=20480 and ?jiffies0.0=1000
      and reads="[(1001, EH_DCMD_DECOMPRESSED)]"]
  have nbB: "\<not> (\<exists>i<2. decompr_busy B ! i)"
    using tb[THEN conjunct2, THEN conjunct1] by (simp add: nb(2))
  have nbq: "\<not> (\<exists>i<2. decompr_busy quiet_dev ! i)"
    using tq[THEN conjunct2, THEN conjunct1] by (simp add: q(2))
  have r1: "eh_suspend example_hdr B 0 =
     (emit [Spin_lock Fifo_prod_lock, Spin_lock (Decompr_lock 0), Spin_lock (Decompr_lock 1),
            Pr_warn,
            Spin_unlock (Decompr_lock 1), Spin_unlock (Decompr_lock 0),
            Spin_unlock Fifo_prod_lock] B, - EBUSY)"
    using tb[where t=B, THEN conjunct1] by (simp add: nb u Let_def)
  have r2': "eh_suspend example_hdr quiet_dev (push_bit 62 1) =
     (emit [Spin_lock Fifo_prod_lock, Spin_lock (Decompr_lock 0), Spin_lock (Decompr_lock 1),
            Write_register EH_REG_INTRP_MASK_ERROR (- 1),
            Write_register EH_REG_INTRP_MASK_CMP (- 1),
            Write_register EH_REG_INTRP_MASK_DCMP (- 1),
            Write_register EH_REG_CDESC_CTRL 0,
            Clk_disable_unprepare, Pr_info,
            Spin_unlock (Decompr_lock 1), Spin_unlock (Decompr_lock 0),
            Spin_unlock Fifo_prod_lock] (quiet_dev\<lparr>suspended := True\<rparr>), 0)"
    using tq[where t=quiet_dev, THEN conjunct1] nbq
    by (simp add: q u Let_def del: push_bit_of_1)
  have r2: "eh_suspend_spin example_hdr quiet_dev [] (push_bit 62 1) =
     Some (emit [Spin_lock Fifo_prod_lock, Spin_lock (Decompr_lock 0), Spin_lock (Decompr_lock 1),
            Write_register EH_REG_INTRP_MASK_ERROR (- 1),
            Write_register EH_REG_INTRP_MASK_CMP (- 1),
            Write_register EH_REG_INTRP_MASK_DCMP (- 1),
            Write_register EH_REG_CDESC_CTRL 0,
            Clk_disable_unprepare, Pr_info,
            Spin_unlock (Decompr_lock 1), Spin_unlock (Decompr_lock 0),
            Spin_unlock Fifo_prod_lock] (quiet_dev\<lparr>suspended := True\<rparr>), 0)"
    using tq[THEN conjunct2, THEN conjunct2, THEN conjunct1] by (simp only: r2')
  note fl = tq[THEN conjunct2, THEN conjunct2, THEN conjunct2, rule_format, OF q(3),
      unfolded Let_def q(2), folded decompressing_dev_def]
  have one: "(1::nat) mod 2 = 1" by simp
  have r3: "lock_held (Decompr_lock 1) (trace decompressing_dev)"
    "eh_suspend_spin example_hdr decompressing_dev [] (push_bit 62 1) = None"
    using fl by (simp_all add: one)
  have r4: "eh_suspend_spin example_hdr decompressing_dev
     [eh_decompress_page_returns example_hdr 1 1000 [(1001, EH_DCMD_DECOMPRESSED)]]
     (push_bit 62 1) =
     Some (emit [Spin_lock Fifo_prod_lock, Spin_lock (Decompr_lock 0),
            Update_latency EH_DECOMPRESS_POLL, Spin_unlock (Decompr_lock 1),
            Spin_lock (Decompr_lock 1),
            Write_register EH_REG_INTRP_MASK_ERROR (- 1),
            Write_register EH_REG_INTRP_MASK_CMP (- 1),
            Write_register EH_REG_INTRP_MASK_DCMP (- 1),
            Write_register EH_REG_CDESC_CTRL 0,
            Clk_disable_unprepare, Pr_info,
            Spin_unlock (Decompr_lock 1), Spin_unlock (Decompr_lock 0),
            Spin_unlock Fifo_prod_lock] (decompressing_dev\<lparr>suspended := True\<rparr>), 0)"
    using fl[THEN conjunct2, THEN conjunct2, THEN conjunct2, rule_format, unfolded one, OF p]
    by (simp add: q u one emit_def del: push_bit_of_1)
  show ?thesis
    using a b c c' r1 r2 q(3) r3 p r4 unfolding B_def by blast
qed

text \<open>
  C8 (as the specification has it) fails for a decompression in flight.  On a device
  with no compression pending, processor 1 is inside \<^verbatim>\<open>eh_decompress_page\<close>: it holds
  the lock of its command slot and polls.  \<^verbatim>\<open>eh_suspend\<close> does not return \<open>-EBUSY\<close>:
  it does not return at all while the decompression lasts, and when the decompression
  has returned it takes the lock, writes the registers, sets \<open>suspended\<close> and returns 0.
\<close>

theorem suspend_waits_for_decompression_in_flight:
  "nr_request quiet_dev = 0 \<and> \<not> suspended quiet_dev \<and>
   lock_held (Decompr_lock 1) (trace decompressing_dev) \<and>
   decompr_busy decompressing_dev = [False, False] \<and>
   eh_suspend_spin example_hdr decompressing_dev [] 0 = None \<and>
   map_option (\<lambda>r. (snd r, suspended (fst r),
                     filter is_write_register
                       (drop (length (trace decompressing_dev)) (trace (fst r)))))
     (eh_suspend_spin example_hdr decompressing_dev
        [eh_decompress_page_returns example_hdr 1 1000 [(1001, EH_DCMD_DECOMPRESSED)]] 0) =
   Some (0, True,
         [Write_register EH_REG_INTRP_MASK_ERROR (- 1),
          Write_register EH_REG_INTRP_MASK_CMP (- 1),
          Write_register EH_REG_INTRP_MASK_DCMP (- 1),
          Write_register EH_REG_CDESC_CTRL 0])"
  by code_simp

subsection \<open>Recovery from a halted device\<close>

lemma try_admits:
  assumes "\<not> suspended s"
    and "\<not> (((write_index s + 1) AND fifo_color_mask s) - complete_index s) AND
            fifo_color_mask s > fifo_size s"
  shows "eh_compress_page_try s page p =
     Inl (let slot = unat (write_index s AND fifo_index_mask s) in
          s\<lparr>fifo := (fifo s)[slot :=
                       (fifo s ! slot)\<lparr>desc_src_addr := page, desc_status := EH_CDESC_PENDING\<rparr>],
            completions := (completions s)[slot := (completions s ! slot)\<lparr>priv := p\<rparr>],
            nr_request := nr_request s + 1,
            write_index := (write_index s + 1) AND fifo_color_mask s,
            trace := trace s @
              [Spin_lock Fifo_prod_lock, Wake_up_comp_wq,
               Write_register EH_REG_CDESC_WRIDX
                 (ucast ((write_index s + 1) AND fifo_color_mask s)),
               Spin_unlock Fifo_prod_lock]\<rparr>, 0)"
  using assms
  by (simp add: eh_compress_page_try_def Let_def emit_def eh_setup_descriptor_def)

text \<open>
  C3 (as the code has it).  When a pass of the thread has met an \<open>ERROR_HALTED\<close>
  descriptor, it reads the error register.  If that reads 0, the pass warns and the
  thread goes on; nothing is synthesized.  If it does not, the pass calls the callback
  with \<open>(ERROR_HALTED, NULL, 0, token)\<close> for every slot from the completion index that
  the device reports then up to the write index, in ring order, and the thread ends.
  From then on, whatever is called, the thread makes no pass and no completion is
  delivered.  Nothing else is closed: while the device is not suspended and the ring is
  not full, \<^verbatim>\<open>eh_compress_page\<close> still takes a request, writes its descriptor and the
  write index register and returns 0.
\<close>

theorem halt_recovery:
  assumes "ring_ok k s" and "0 < nr_request s"
    and "eh_update_complete_index h s raw = Some (s1, ret)" and "ret \<noteq> 0"
  shows "(error = 0 \<longrightarrow> eh_comp_thread_pass h s raw error raw2 = Some (emit [Warn] s1)) \<and>
         (error \<noteq> 0 \<longrightarrow>
           (\<exists>s2. eh_comp_thread_pass h s raw error raw2 = Some s2 \<and>
              trace s2 = trace s1 @ [Pr_err, Dump_regs] @
                (let start = (ucast (raw2 AND EH_CDESC_CTRL_COMPLETE_IDX_MASK h) :: 32 word) AND
                             fifo_index_mask s;
                     count = unat (((write_index s AND fifo_index_mask s) - start) AND
                                   fifo_index_mask s)
                 in map (\<lambda>j. Comp_callback EH_CDESC_ERROR_HALTED NULL 0
                                (priv (completions s1 !
                                   unat ((start + of_nat j) AND fifo_index_mask s))))
                      [0..<count]) \<and>
              \<not> comp_thread_running s2 \<and>
              (\<forall>P ops s3. eh_run h v P s2 ops = Some s3 \<longrightarrow>
                 \<not> comp_thread_running s3 \<and>
                 callbacks (trace s3) = callbacks (trace s2) \<and>
                 eh_apply h v s3 (Thread_pass raw3 error3 raw4) = None \<and>
                 (\<not> suspended s3 \<and>
                  \<not> (((write_index s3 + 1) AND fifo_color_mask s3) - complete_index s3) AND
                       fifo_color_mask s3 > fifo_size s3 \<longrightarrow>
                    eh_compress_page s3 others page p =
                      Some (let slot = unat (write_index s3 AND fifo_index_mask s3) in
                            s3\<lparr>fifo := (fifo s3)[slot :=
                                  (fifo s3 ! slot)\<lparr>desc_src_addr := page,
                                                     desc_status := EH_CDESC_PENDING\<rparr>],
                               completions := (completions s3)[slot :=
                                  (completions s3 ! slot)\<lparr>priv := p\<rparr>],
                               nr_request := nr_request s3 + 1,
                               write_index := (write_index s3 + 1) AND fifo_color_mask s3,
                               trace := trace s3 @
                                 [Spin_lock Fifo_prod_lock, Wake_up_comp_wq,
                                  Write_register EH_REG_CDESC_WRIDX
                                    (ucast ((write_index s3 + 1) AND fifo_color_mask s3)),
                                  Spin_unlock Fifo_prod_lock]\<rparr>, 0)))))"
proof (intro conjI impI)
  assume "error = 0"
  then show "eh_comp_thread_pass h s raw error raw2 = Some (emit [Warn] s1)"
    using assms(2-4) by (simp add: eh_comp_thread_pass_def)
next
  assume err: "error \<noteq> 0"
  from assms(1) have k: "k \<le> 15" and m: "fifo_index_mask s = mask k"
    by (simp_all add: ring_ok_def)
  have b: "k \<le> 32" using k by simp
  from ring_frame_update[OF assms(3)] have fr: "ring_frame s s1" by simp
  let ?sE = "emit [Pr_err, Dump_regs] s1"
  have mE: "fifo_index_mask ?sE = mask k" and wE: "write_index ?sE = write_index s"
    and cE: "completions ?sE = completions s1" and tE: "trace ?sE = trace s1 @ [Pr_err, Dump_regs]"
    using fr m by (simp_all add: ring_frame_def emit_def)
  let ?start = "(ucast (raw2 AND EH_CDESC_CTRL_COMPLETE_IDX_MASK h) :: 32 word) AND mask k"
  let ?mw = "write_index s AND mask k"
  have im: "?start AND mask k = ?start" and mm: "?mw AND mask k = ?mw" by simp_all
  from abort_loop[OF mE b im mm refl]
  obtain s2 where l: "eh_abort_loop ?sE ?start ?mw = Some s2"
    and t: "trace s2 = trace ?sE @
       map (\<lambda>j. Comp_callback EH_CDESC_ERROR_HALTED NULL 0
                   (priv (completions ?sE ! unat ((?start + of_nat j) AND mask k))))
         [0..<unat ((?mw - ?start) AND mask k)]"
    by blast
  have a: "eh_abort_incomplete_descriptors h ?sE raw2 = Some s2"
    using l by (simp add: abort_eq[OF k mE] wE)
  have pass: "eh_comp_thread_pass h s raw error raw2 = Some (s2\<lparr>comp_thread_running := False\<rparr>)"
    using assms(2-4) err a by (simp add: eh_comp_thread_pass_def)
  have nr: "\<not> comp_thread_running (s2\<lparr>comp_thread_running := False\<rparr>)" by simp
  have after: "\<not> comp_thread_running s3 \<and>
               callbacks (trace s3) = callbacks (trace (s2\<lparr>comp_thread_running := False\<rparr>)) \<and>
               eh_apply h v s3 (Thread_pass raw3 error3 raw4) = None \<and>
               (\<not> suspended s3 \<and>
                  \<not> (((write_index s3 + 1) AND fifo_color_mask s3) - complete_index s3) AND
                       fifo_color_mask s3 > fifo_size s3 \<longrightarrow>
                    eh_compress_page s3 others page p =
                      Some (let slot = unat (write_index s3 AND fifo_index_mask s3) in
                            s3\<lparr>fifo := (fifo s3)[slot :=
                                  (fifo s3 ! slot)\<lparr>desc_src_addr := page,
                                                     desc_status := EH_CDESC_PENDING\<rparr>],
                               completions := (completions s3)[slot :=
                                  (completions s3 ! slot)\<lparr>priv := p\<rparr>],
                               nr_request := nr_request s3 + 1,
                               write_index := (write_index s3 + 1) AND fifo_color_mask s3,
                               trace := trace s3 @
                                 [Spin_lock Fifo_prod_lock, Wake_up_comp_wq,
                                  Write_register EH_REG_CDESC_WRIDX
                                    (ucast ((write_index s3 + 1) AND fifo_color_mask s3)),
                                  Spin_unlock Fifo_prod_lock]\<rparr>, 0))"
    if r: "eh_run h v P (s2\<lparr>comp_thread_running := False\<rparr>) ops = Some s3" for P ops s3
  proof -
    note h3 = run_halted[OF nr r]
    have adm: "eh_compress_page s3 others page p =
                      Some (let slot = unat (write_index s3 AND fifo_index_mask s3) in
                            s3\<lparr>fifo := (fifo s3)[slot :=
                                  (fifo s3 ! slot)\<lparr>desc_src_addr := page,
                                                     desc_status := EH_CDESC_PENDING\<rparr>],
                               completions := (completions s3)[slot :=
                                  (completions s3 ! slot)\<lparr>priv := p\<rparr>],
                               nr_request := nr_request s3 + 1,
                               write_index := (write_index s3 + 1) AND fifo_color_mask s3,
                               trace := trace s3 @
                                 [Spin_lock Fifo_prod_lock, Wake_up_comp_wq,
                                  Write_register EH_REG_CDESC_WRIDX
                                    (ucast ((write_index s3 + 1) AND fifo_color_mask s3)),
                                  Spin_unlock Fifo_prod_lock]\<rparr>, 0)"
      if "\<not> suspended s3"
        "\<not> (((write_index s3 + 1) AND fifo_color_mask s3) - complete_index s3) AND
                       fifo_color_mask s3 > fifo_size s3"
      using try_admits[OF that, of page p] by (cases others) simp_all
    show ?thesis using h3 adm by simp
  qed
  show "\<exists>s2. eh_comp_thread_pass h s raw error raw2 = Some s2 \<and>
              trace s2 = trace s1 @ [Pr_err, Dump_regs] @
                (let start = (ucast (raw2 AND EH_CDESC_CTRL_COMPLETE_IDX_MASK h) :: 32 word) AND
                             fifo_index_mask s;
                     count = unat (((write_index s AND fifo_index_mask s) - start) AND
                                   fifo_index_mask s)
                 in map (\<lambda>j. Comp_callback EH_CDESC_ERROR_HALTED NULL 0
                                (priv (completions s1 !
                                   unat ((start + of_nat j) AND fifo_index_mask s))))
                      [0..<count]) \<and>
              \<not> comp_thread_running s2 \<and>
              (\<forall>P ops s3. eh_run h v P s2 ops = Some s3 \<longrightarrow>
                 \<not> comp_thread_running s3 \<and>
                 callbacks (trace s3) = callbacks (trace s2) \<and>
                 eh_apply h v s3 (Thread_pass raw3 error3 raw4) = None \<and>
                 (\<not> suspended s3 \<and>
                  \<not> (((write_index s3 + 1) AND fifo_color_mask s3) - complete_index s3) AND
                       fifo_color_mask s3 > fifo_size s3 \<longrightarrow>
                    eh_compress_page s3 others page p =
                      Some (let slot = unat (write_index s3 AND fifo_index_mask s3) in
                            s3\<lparr>fifo := (fifo s3)[slot :=
                                  (fifo s3 ! slot)\<lparr>desc_src_addr := page,
                                                     desc_status := EH_CDESC_PENDING\<rparr>],
                               completions := (completions s3)[slot :=
                                  (completions s3 ! slot)\<lparr>priv := p\<rparr>],
                               nr_request := nr_request s3 + 1,
                               write_index := (write_index s3 + 1) AND fifo_color_mask s3,
                               trace := trace s3 @
                                 [Spin_lock Fifo_prod_lock, Wake_up_comp_wq,
                                  Write_register EH_REG_CDESC_WRIDX
                                    (ucast ((write_index s3 + 1) AND fifo_color_mask s3)),
                                  Spin_unlock Fifo_prod_lock]\<rparr>, 0)))"
    apply (rule exI[of _ "s2\<lparr>comp_thread_running := False\<rparr>"])
    apply (intro conjI allI impI)
    subgoal by (rule pass)
    subgoal by (simp add: t m cE tE Let_def)
    subgoal by simp
    subgoal for P ops s3 using after[of P ops s3] by blast
    subgoal for P ops s3 using after[of P ops s3] by blast
    subgoal for P ops s3 using after[of P ops s3] by blast
    subgoal for P ops s3 using after[of P ops s3] by blast
    done
qed


theorem halt_recovery_witness:
  "ring_ok 2 halted_at_two \<and> 0 < nr_request halted_at_two \<and>
   eh_update_complete_index example_hdr halted_at_two 3 =
     Some (fst (the (eh_update_complete_index example_hdr halted_at_two 3)),
           snd (the (eh_update_complete_index example_hdr halted_at_two 3))) \<and>
   snd (the (eh_update_complete_index example_hdr halted_at_two 3)) \<noteq> 0 \<and>
   eh_comp_thread_pass example_hdr halted_at_two 3 0 3 =
     Some (emit [Warn] (fst (the (eh_update_complete_index example_hdr halted_at_two 3)))) \<and>
   (\<exists>s2. eh_comp_thread_pass example_hdr halted_at_two 3 1 3 = Some s2 \<and>
          \<not> comp_thread_running s2 \<and>
          callbacks (trace s2) =
            [Comp_callback EH_CDESC_COMPRESSED 4096 700 11,
             Comp_callback EH_CDESC_COMPRESSED 8192 900 22,
             Comp_callback EH_CDESC_ERROR_HALTED NULL 0 33,
             Comp_callback EH_CDESC_ERROR_HALTED NULL 0 44] \<and>
          eh_apply example_hdr (\<lambda>a. a) s2 (Thread_pass 4 1 4) = None \<and>
          \<not> suspended s2 \<and>
          map_option snd (eh_compress_page s2 [] 20480 55) = Some 0)"
proof -
  let ?S = "the (eh_comp_thread_pass example_hdr halted_at_two 3 1 3)"
  have a: "ring_ok 2 halted_at_two" by code_simp
  have b: "0 < nr_request halted_at_two" by code_simp
  have c: "eh_update_complete_index example_hdr halted_at_two 3 =
     Some (fst (the (eh_update_complete_index example_hdr halted_at_two 3)),
           snd (the (eh_update_complete_index example_hdr halted_at_two 3)))"
    by code_simp
  have d: "snd (the (eh_update_complete_index example_hdr halted_at_two 3)) \<noteq> 0"
    by code_simp
  have f: "callbacks (trace ?S) =
           [Comp_callback EH_CDESC_COMPRESSED 4096 700 11,
            Comp_callback EH_CDESC_COMPRESSED 8192 900 22,
            Comp_callback EH_CDESC_ERROR_HALTED NULL 0 33,
            Comp_callback EH_CDESC_ERROR_HALTED NULL 0 44]"
    by code_simp
  have g: "\<not> suspended ?S"
    "\<not> (((write_index ?S + 1) AND fifo_color_mask ?S) - complete_index ?S) AND
         fifo_color_mask ?S > fifo_size ?S"
    by code_simp+
  note t = halt_recovery[OF a b c d, where v="\<lambda>a. a" and others="[]" and page=20480 and p=55
      and ?raw2.0=3 and ?raw3.0=4 and ?error3.0=1 and ?raw4.0=4]
  have zero: "eh_comp_thread_pass example_hdr halted_at_two 3 0 3 =
     Some (emit [Warn] (fst (the (eh_update_complete_index example_hdr halted_at_two 3))))"
    using t[where error=0] by simp
  from t[where error=1] obtain s2 where s2:
    "eh_comp_thread_pass example_hdr halted_at_two 3 1 3 = Some s2"
    "\<not> comp_thread_running s2"
    and later: "\<And>P ops s3. eh_run example_hdr (\<lambda>a. a) P s2 ops = Some s3 \<Longrightarrow>
       eh_apply example_hdr (\<lambda>a. a) s3 (Thread_pass 4 1 4) = None \<and>
       (\<not> suspended s3 \<and>
        \<not> (((write_index s3 + 1) AND fifo_color_mask s3) - complete_index s3) AND
             fifo_color_mask s3 > fifo_size s3 \<longrightarrow>
        map_option snd (eh_compress_page s3 [] 20480 55) = Some 0)"
    by (auto simp: Let_def)
  have eq: "s2 = ?S" using s2(1) by simp
  have r0: "eh_run example_hdr (\<lambda>a. a) (\<lambda>s op. True) s2 [] = Some s2" by simp
  from later[OF r0] g
  have l: "eh_apply example_hdr (\<lambda>a. a) s2 (Thread_pass 4 1 4) = None"
    "map_option snd (eh_compress_page s2 [] 20480 55) = Some 0"
    unfolding eq by blast+
  show ?thesis
    using a b c d zero s2 f g(1) l unfolding eq by blast
qed

text \<open>
  C3 (as the specification has it) fails in two points.  When the error register
  reads 0, the pass over the same ring delivers the three reported completions, warns,
  and the thread keeps running; the fourth descriptor gets no completion.  And after a
  halt that was recovered, the ring is not closed to its users: a call of
  \<^verbatim>\<open>eh_compress_page\<close> returns 0, writes the next descriptor and moves the write
  index, though no thread will ever deliver its completion.
\<close>

theorem halt_recovery_is_conditional_and_partial:
  "map_option (\<lambda>s. (callbacks (trace s), comp_thread_running s))
     (eh_comp_thread_pass example_hdr halted_at_two 3 0 3) =
   Some ([Comp_callback EH_CDESC_COMPRESSED 4096 700 11,
          Comp_callback EH_CDESC_COMPRESSED 8192 900 22,
          Comp_callback EH_CDESC_ERROR_HALTED NULL 0 33], True) \<and>
   map_option (\<lambda>s. (comp_thread_running s, write_index s))
     (eh_comp_thread_pass example_hdr halted_at_two 3 1 3) = Some (False, 4) \<and>
   map_option (\<lambda>r. (snd r, write_index (fst r), desc_status (fifo (fst r) ! 0),
                     priv (completions (fst r) ! 0), delivered (trace (fst r))))
     (eh_compress_page (the (eh_comp_thread_pass example_hdr halted_at_two 3 1 3)) []
        20480 55) =
   Some (0, 5, EH_CDESC_PENDING, 55, [11, 22, 33, 44]) \<and>
   eh_apply example_hdr (\<lambda>a. a)
     (fst (the (eh_compress_page (the (eh_comp_thread_pass example_hdr halted_at_two 3 1 3)) []
        20480 55))) (Thread_pass 5 1 5) = None"
  by code_simp

subsection \<open>A ring of one slot\<close>

text \<open>
  The check of \<^verbatim>\<open>eh_init\<close> accepts the size 1, which the driver never passes.  With
  one slot the doubled index range is \<open>{0, 1}\<close> and the test for a full ring never
  holds: a second request is admitted over the first, which is still \<open>PENDING\<close>.
\<close>

lemma single_slot_ring_admits_when_full:
  "(case eh_init example_hdr (eh_dev_kzalloc 2) 1 example_env of
      Some (Inr s0) \<Rightarrow>
        (case eh_compress_page s0 [] 4096 11 of
           Some (s1, rc1) \<Rightarrow>
             (case eh_compress_page s1 [] 8192 22 of
                Some (s2, rc2) \<Rightarrow>
                  Some (rc1, pending s1, desc_status (fifo s1 ! 0), rc2, pending s2,
                        nr_request s2)
              | None \<Rightarrow> None)
         | None \<Rightarrow> None)
    | _ \<Rightarrow> None) =
   Some (0, 1, EH_CDESC_PENDING, 0, 0, 2)"
  by code_simp

end
